theory Spec2Isabelle
  imports Complex_Main "HOL-Library.Sublist"
begin

section \<open>Data model\<close>

text \<open>
  A Python \<open>str\<close> is a sequence of code points (each below \<open>0x110000\<close>, surrogates
  included); \<open>bytes\<close> is a sequence of integers in \<open>range(256)\<close>. Token ids and ranks
  are Python integers.
\<close>

type_synonym pystr = "nat list"
type_synonym bytes = "nat list"
type_synonym token = int

definition str :: "string \<Rightarrow> pystr" where
  "str s = map of_char s"

definition valid_str :: "pystr \<Rightarrow> bool" where
  "valid_str t = (\<forall>c \<in> set t. c < 0x110000)"

definition valid_bytes :: "bytes \<Rightarrow> bool" where
  "valid_bytes bs = (\<forall>b \<in> set bs. b < 256)"

definition is_surrogate :: "nat \<Rightarrow> bool" where
  "is_surrogate c = (0xD800 \<le> c \<and> c < 0xE000)"

definition has_surrogate :: "pystr \<Rightarrow> bool" where
  "has_surrogate t = (\<exists>c \<in> set t. is_surrogate c)"

text \<open>
  The exceptions the code can raise. \<open>DisallowedSpecialToken\<close> is the \<open>ValueError\<close>
  of \<open>raise_disallowed_special_token\<close>, carrying the token its message names.
\<close>

datatype error =
    DisallowedSpecialToken pystr
  | UnicodeEncodeError
  | UnicodeDecodeError
  | KeyError
  | IndexError
  | ValueError
  | TypeError
  | AssertionError

text \<open>
  The arguments \<open>allowed_special\<close> and \<open>disallowed_special\<close>: the sentinel \<open>"all"\<close>
  or a collection of strings. A Python set is represented by the list of its elements in
  iteration order; \<open>set(...)\<close> and \<open>frozenset(...)\<close> keep the first occurrence of
  each element, set difference filters the left operand.
\<close>

datatype special_arg = AllSpecial | Only "pystr list"

fun dedup :: "'a list \<Rightarrow> 'a list" where
  "dedup [] = []"
| "dedup (x # xs) = x # dedup (filter (\<lambda>y. y \<noteq> x) xs)"

definition py_set :: "'a list \<Rightarrow> 'a list" where
  "py_set xs = dedup xs"

definition py_frozenset :: "'a list \<Rightarrow> 'a list" where
  "py_frozenset xs = dedup xs"

definition set_minus :: "'a list \<Rightarrow> 'a list \<Rightarrow> 'a list" where
  "set_minus xs ys = filter (\<lambda>x. x \<notin> set ys) xs"

text \<open>The \<open>errors\<close> argument of \<open>bytes.decode\<close>: \<open>"strict"\<close> or \<open>"replace"\<close>.\<close>

datatype errors_mode = Strict | Replace

text \<open>
  The native object \<open>_tiktoken.CoreBPE\<close> is not part of the repository: the methods the
  code calls are the fields of an interface record.
\<close>

record CoreBPE =
  core_encode_ordinary :: "pystr \<Rightarrow> error + token list"
  core_encode :: "pystr \<Rightarrow> pystr list \<Rightarrow> error + token list"
  core_encode_with_unstable :: "pystr \<Rightarrow> pystr list \<Rightarrow> error + (token list \<times> token list list)"
  core_decode_bytes :: "token list \<Rightarrow> error + bytes"
  core_decode_single_token_bytes :: "token \<Rightarrow> error + bytes"

record Encoding =
  name :: string
  pat_str :: string
  mergeable_ranks :: "(bytes \<times> int) list"
  special_tokens :: "(pystr \<times> int) list"
  max_token_value :: int
  core_bpe :: CoreBPE

section \<open>Python library functions used by the code\<close>

text \<open>A comprehension or \<open>map\<close> over a list stops at the first exception.\<close>

fun map_result :: "('a \<Rightarrow> error + 'b) \<Rightarrow> 'a list \<Rightarrow> error + 'b list" where
  "map_result f [] = Inr []"
| "map_result f (x # xs) =
     (case f x of
        Inl e \<Rightarrow> Inl e
      | Inr y \<Rightarrow> (case map_result f xs of Inl e \<Rightarrow> Inl e | Inr ys \<Rightarrow> Inr (y # ys)))"

text \<open>\<open>max(xs)\<close> raises \<open>ValueError\<close> on an empty sequence; \<open>max(xs, default=d)\<close> returns \<open>d\<close>.\<close>

definition py_max :: "int list \<Rightarrow> error + int" where
  "py_max xs = (case xs of [] \<Rightarrow> Inl ValueError | x # rest \<Rightarrow> Inr (fold max rest x))"

definition py_max_default :: "int list \<Rightarrow> int \<Rightarrow> int" where
  "py_max_default xs d = (case xs of [] \<Rightarrow> d | x # rest \<Rightarrow> fold max rest x)"

text \<open>\<open>range(start, stop, step)\<close>: \<open>ValueError\<close> when the step is zero.\<close>

function range_from :: "int \<Rightarrow> int \<Rightarrow> int \<Rightarrow> int list" where
  "range_from i stop step =
     (if (0 < step \<and> i < stop) \<or> (step < 0 \<and> stop < i)
      then i # range_from (i + step) stop step else [])"
  by pat_completeness auto
termination
  by (relation "measure (\<lambda>(i, stop, step). nat (if 0 < step then stop - i else i - stop))") auto

declare range_from.simps [simp del]

definition py_range :: "int \<Rightarrow> int \<Rightarrow> int \<Rightarrow> error + int list" where
  "py_range start stop step =
     (if step = 0 then Inl ValueError else Inr (range_from start stop step))"

text \<open>The slice \<open>xs[i:j]\<close>: negative bounds count from the end, all bounds are clamped.\<close>

definition py_slice :: "'a list \<Rightarrow> int \<Rightarrow> int \<Rightarrow> 'a list" where
  "py_slice xs i j =
     (let n = int (length xs);
          lo = (if i < 0 then max 0 (i + n) else min i n);
          hi = (if j < 0 then max 0 (j + n) else min j n)
      in take (nat (hi - lo)) (drop (nat lo) xs))"

text \<open>
  \<open>with ThreadPoolExecutor(num_threads) as executor: list(executor.map(f, xs))\<close>:
  the constructor raises \<open>ValueError\<close> unless \<open>num_threads\<close> is positive; the results
  come in the order of the inputs, and the first exception in that order is raised.
  The functions mapped here are pure.
\<close>

definition thread_pool_map :: "int \<Rightarrow> ('a \<Rightarrow> error + 'b) \<Rightarrow> 'a list \<Rightarrow> error + 'b list" where
  "thread_pool_map num_threads f xs =
     (if num_threads \<le> 0 then Inl ValueError else map_result f xs)"

subsection \<open>UTF-16 with \<open>surrogatepass\<close> and \<open>replace\<close>\<close>

text \<open>
  \<open>text.encode("utf-16", "surrogatepass")\<close> and \<open>.decode("utf-16", "replace")\<close>,
  on 16-bit code units: both use the native byte order, and the byte-order mark that the
  encoder writes first is consumed by the decoder (a byte-swapped mark switches the byte
  order of what follows).
\<close>

definition utf16_units :: "nat \<Rightarrow> nat list" where
  "utf16_units c =
     (if c < 0x10000 then [c]
      else [0xD800 + (c - 0x10000) div 0x400, 0xDC00 + (c - 0x10000) mod 0x400])"

definition utf16_encode_surrogatepass :: "pystr \<Rightarrow> nat list" where
  "utf16_encode_surrogatepass t = 0xFEFF # concat (map utf16_units t)"

fun utf16_decode_units :: "nat list \<Rightarrow> pystr" where
  "utf16_decode_units [] = []"
| "utf16_decode_units (u # us) =
     (if \<not> is_surrogate u then u # utf16_decode_units us
      else if u < 0xDC00 then
        (case us of
           [] \<Rightarrow> [0xFFFD]
         | v # vs \<Rightarrow>
             if 0xDC00 \<le> v \<and> v < 0xE000
             then (0x10000 + (u - 0xD800) * 0x400 + (v - 0xDC00)) # utf16_decode_units vs
             else 0xFFFD # utf16_decode_units us)
      else 0xFFFD # utf16_decode_units us)"

definition swap_bytes :: "nat \<Rightarrow> nat" where
  "swap_bytes u = (u mod 256) * 256 + (u div 256) mod 256"

definition utf16_decode_replace :: "nat list \<Rightarrow> pystr" where
  "utf16_decode_replace us =
     (case us of
        [] \<Rightarrow> []
      | u # rest \<Rightarrow>
          if u = 0xFEFF then utf16_decode_units rest
          else if u = 0xFFFE then utf16_decode_units (map swap_bytes rest)
          else utf16_decode_units us)"

definition surrogate_fallback :: "pystr \<Rightarrow> pystr" where
  "surrogate_fallback t = utf16_decode_replace (utf16_encode_surrogatepass t)"

subsection \<open>UTF-8\<close>

text \<open>The test \<open>0x80 <= c < 0xC0\<close> of \<open>decode_with_offsets\<close>: a continuation byte.\<close>

definition is_continuation :: "nat \<Rightarrow> bool" where
  "is_continuation c = (0x80 \<le> c \<and> c < 0xC0)"

text \<open>One code point (not a surrogate) as UTF-8.\<close>

definition utf8_encode_cp :: "nat \<Rightarrow> bytes" where
  "utf8_encode_cp c =
     (if c < 0x80 then [c]
      else if c < 0x800 then [0xC0 + c div 0x40, 0x80 + c mod 0x40]
      else if c < 0x10000 then
        [0xE0 + c div 0x1000, 0x80 + (c div 0x40) mod 0x40, 0x80 + c mod 0x40]
      else
        [0xF0 + c div 0x40000, 0x80 + (c div 0x1000) mod 0x40,
         0x80 + (c div 0x40) mod 0x40, 0x80 + c mod 0x40])"

definition utf8_bytes :: "pystr \<Rightarrow> bytes" where
  "utf8_bytes t = concat (map utf8_encode_cp t)"

text \<open>\<open>str.encode("utf-8")\<close>: surrogates cannot be encoded.\<close>

definition utf8_encode :: "pystr \<Rightarrow> error + bytes" where
  "utf8_encode t = (if has_surrogate t then Inl UnicodeEncodeError else Inr (utf8_bytes t))"

text \<open>
  One step of the UTF-8 decoder: the code point at the head of the input, or \<open>None\<close>
  for a malformed sequence, and the number of bytes the step covers. A malformed
  sequence covers the longest prefix that could start a well-formed one (one byte for an
  invalid start byte).
\<close>

definition utf8_next :: "bytes \<Rightarrow> nat option \<times> nat" where
  "utf8_next bs =
     (case bs of
        [] \<Rightarrow> (None, 1)
      | b0 # r0 \<Rightarrow>
          if b0 < 0x80 then (Some b0, 1)
          else if b0 < 0xC2 then (None, 1)
          else if b0 < 0xE0 then
            (case r0 of
               [] \<Rightarrow> (None, 1)
             | b1 # r1 \<Rightarrow>
                 if is_continuation b1
                 then (Some ((b0 - 0xC0) * 0x40 + (b1 - 0x80)), 2)
                 else (None, 1))
          else if b0 < 0xF0 then
            (case r0 of
               [] \<Rightarrow> (None, 1)
             | b1 # r1 \<Rightarrow>
                 if (if b0 = 0xE0 then 0xA0 else 0x80) \<le> b1
                    \<and> b1 \<le> (if b0 = 0xED then 0x9F else 0xBF)
                 then
                   (case r1 of
                      [] \<Rightarrow> (None, 2)
                    | b2 # r2 \<Rightarrow>
                        if is_continuation b2
                        then (Some ((b0 - 0xE0) * 0x1000 + (b1 - 0x80) * 0x40 + (b2 - 0x80)), 3)
                        else (None, 2))
                 else (None, 1))
          else if b0 < 0xF5 then
            (case r0 of
               [] \<Rightarrow> (None, 1)
             | b1 # r1 \<Rightarrow>
                 if (if b0 = 0xF0 then 0x90 else 0x80) \<le> b1
                    \<and> b1 \<le> (if b0 = 0xF4 then 0x8F else 0xBF)
                 then
                   (case r1 of
                      [] \<Rightarrow> (None, 2)
                    | b2 # r2 \<Rightarrow>
                        if is_continuation b2
                        then
                          (case r2 of
                             [] \<Rightarrow> (None, 3)
                           | b3 # r3 \<Rightarrow>
                               if is_continuation b3
                               then (Some ((b0 - 0xF0) * 0x40000 + (b1 - 0x80) * 0x1000
                                           + (b2 - 0x80) * 0x40 + (b3 - 0x80)), 4)
                               else (None, 3))
                        else (None, 2))
                 else (None, 1))
          else (None, 1))"

lemma utf8_next_consumes: "0 < snd (utf8_next bs)"
  by (simp add: utf8_next_def split: list.splits)

text \<open>
  \<open>bytes.decode("utf-8", errors)\<close>: \<open>"strict"\<close> raises at the first malformed
  sequence, \<open>"replace"\<close> puts U+FFFD in its place and goes on.
\<close>

function utf8_decode :: "errors_mode \<Rightarrow> bytes \<Rightarrow> error + pystr" where
  "utf8_decode errors bs =
     (if bs = [] then Inr []
      else
        (case utf8_next bs of
           (Some c, n) \<Rightarrow>
             (case utf8_decode errors (drop n bs) of
                Inl e \<Rightarrow> Inl e
              | Inr t \<Rightarrow> Inr (c # t))
         | (None, n) \<Rightarrow>
             (case errors of
                Strict \<Rightarrow> Inl UnicodeDecodeError
              | Replace \<Rightarrow>
                  (case utf8_decode errors (drop n bs) of
                     Inl e \<Rightarrow> Inl e
                   | Inr t \<Rightarrow> Inr (0xFFFD # t)))))"
  by pat_completeness auto
termination
  apply (relation "measure (\<lambda>(errors, bs). length bs)")
    apply simp
  subgoal for errors bs
    using utf8_next_consumes [of bs] by (cases bs; cases "utf8_next bs") auto
  subgoal for errors bs
    using utf8_next_consumes [of bs] by (cases bs; cases "utf8_next bs") auto
  done

declare utf8_decode.simps [simp del]

section \<open>The \<open>Encoding\<close> class\<close>

text \<open>
  \<open>Encoding.__init__\<close>. The constructor of the native object is the parameter
  \<open>new_core\<close>. \<open>if explicit_n_vocab:\<close> is false for \<open>None\<close> and for \<open>0\<close>.
\<close>

definition Encoding_init ::
  "((bytes \<times> int) list \<Rightarrow> (pystr \<times> int) list \<Rightarrow> string \<Rightarrow> error + CoreBPE)
   \<Rightarrow> string \<Rightarrow> string \<Rightarrow> (bytes \<times> int) list \<Rightarrow> (pystr \<times> int) list \<Rightarrow> int option
   \<Rightarrow> error + Encoding" where
  "Encoding_init new_core nm pat ranks specials explicit_n_vocab =
     (case py_max (map snd ranks) of
        Inl e \<Rightarrow> Inl e
      | Inr m \<Rightarrow>
          (let mtv = max m (py_max_default (map snd specials) 0);
               construct =
                 (case new_core ranks specials pat of
                    Inl e \<Rightarrow> Inl e
                  | Inr core \<Rightarrow>
                      Inr \<lparr>name = nm, pat_str = pat, mergeable_ranks = ranks,
                           special_tokens = specials, max_token_value = mtv,
                           core_bpe = core\<rparr>)
           in case explicit_n_vocab of
                None \<Rightarrow> construct
              | Some n \<Rightarrow>
                  if n \<noteq> 0 then
                    (if int (length ranks) + int (length specials) \<noteq> n
                     then Inl AssertionError
                     else if mtv \<noteq> n - 1 then Inl AssertionError
                     else construct)
                  else construct))"

definition special_tokens_set :: "Encoding \<Rightarrow> pystr list" where
  "special_tokens_set e = map fst (special_tokens e)"

definition eot_token :: "Encoding \<Rightarrow> error + int" where
  "eot_token e =
     (case map_of (special_tokens e) [] of None \<Rightarrow> Inl KeyError | Some v \<Rightarrow> Inr v)"

definition n_vocab :: "Encoding \<Rightarrow> int" where
  "n_vocab e = max_token_value e + 1"

definition raise_disallowed_special_token :: "pystr \<Rightarrow> error" where
  "raise_disallowed_special_token tok = DisallowedSpecialToken tok"

text \<open>
  \<open>_special_token_regex(tokens).search(text)\<close>: the pattern is the alternation of the
  escaped tokens in iteration order (the empty pattern for no token). \<open>search\<close> returns
  the match at the leftmost position where one starts; at a position the first
  alternative that matches is taken.
\<close>

definition special_token_match :: "pystr list \<Rightarrow> pystr \<Rightarrow> pystr option" where
  "special_token_match tokens t =
     (if tokens = [] then Some [] else find (\<lambda>tok. prefix tok t) tokens)"

fun special_token_search :: "pystr list \<Rightarrow> pystr \<Rightarrow> pystr option" where
  "special_token_search tokens [] = special_token_match tokens []"
| "special_token_search tokens (c # cs) =
     (case special_token_match tokens (c # cs) of
        Some m \<Rightarrow> Some m
      | None \<Rightarrow> special_token_search tokens cs)"

definition encode_ordinary :: "Encoding \<Rightarrow> pystr \<Rightarrow> error + token list" where
  "encode_ordinary e t =
     (if core_encode_ordinary (core_bpe e) t = Inl UnicodeEncodeError
      then core_encode_ordinary (core_bpe e) (surrogate_fallback t)
      else core_encode_ordinary (core_bpe e) t)"

definition encode :: "Encoding \<Rightarrow> pystr \<Rightarrow> special_arg \<Rightarrow> special_arg \<Rightarrow> error + token list" where
  "encode e t allowed_special disallowed_special =
     (let allowed = (case allowed_special of AllSpecial \<Rightarrow> special_tokens_set e | Only a \<Rightarrow> a);
          disallowed = (case disallowed_special of
                          AllSpecial \<Rightarrow> set_minus (special_tokens_set e) allowed
                        | Only d \<Rightarrow> d)
      in case (if disallowed \<noteq> []
               then special_token_search (py_frozenset disallowed) t else None) of
           Some m \<Rightarrow> Inl (raise_disallowed_special_token m)
         | None \<Rightarrow>
             (if core_encode (core_bpe e) t (py_set allowed) = Inl UnicodeEncodeError
              then core_encode (core_bpe e) (surrogate_fallback t) (py_set allowed)
              else core_encode (core_bpe e) t (py_set allowed)))"

definition encode_ordinary_batch :: "Encoding \<Rightarrow> pystr list \<Rightarrow> int \<Rightarrow> error + token list list" where
  "encode_ordinary_batch e texts num_threads =
     thread_pool_map num_threads (encode_ordinary e) texts"

definition encode_batch ::
  "Encoding \<Rightarrow> pystr list \<Rightarrow> int \<Rightarrow> special_arg \<Rightarrow> special_arg \<Rightarrow> error + token list list" where
  "encode_batch e texts num_threads allowed_special disallowed_special =
     (let allowed = (case allowed_special of
                       AllSpecial \<Rightarrow> special_tokens_set e
                     | Only a \<Rightarrow> py_set a);
          disallowed = (case disallowed_special of
                          AllSpecial \<Rightarrow> set_minus (special_tokens_set e) allowed
                        | Only d \<Rightarrow> py_frozenset d)
      in thread_pool_map num_threads (\<lambda>t. encode e t (Only allowed) (Only disallowed)) texts)"

text \<open>
  \<open>encode_with_unstable\<close>. \<open>_special_token_regex\<close> is wrapped in \<open>functools.cache\<close>,
  which hashes its argument. Under \<open>disallowed_special == "all"\<close> the argument is the
  plain set \<open>self.special_tokens_set - allowed_special\<close>, which is not hashable: the call
  raises \<open>TypeError\<close> before any search. An explicit collection has been made a
  \<open>frozenset\<close>, which is hashable. (\<open>encode\<close> converts to a \<open>frozenset\<close> on both
  paths.)
\<close>

definition encode_with_unstable ::
  "Encoding \<Rightarrow> pystr \<Rightarrow> special_arg \<Rightarrow> special_arg
   \<Rightarrow> error + (token list \<times> token list list)" where
  "encode_with_unstable e t allowed_special disallowed_special =
     (let allowed = (case allowed_special of
                       AllSpecial \<Rightarrow> special_tokens_set e
                     | Only a \<Rightarrow> py_set a);
          disallowed = (case disallowed_special of
                          AllSpecial \<Rightarrow> set_minus (special_tokens_set e) allowed
                        | Only d \<Rightarrow> py_frozenset d)
      in if disallowed \<noteq> [] then
           (case disallowed_special of
              AllSpecial \<Rightarrow> Inl TypeError
            | Only d \<Rightarrow>
                (case special_token_search disallowed t of
                   Some m \<Rightarrow> Inl (raise_disallowed_special_token m)
                 | None \<Rightarrow> core_encode_with_unstable (core_bpe e) t allowed))
         else core_encode_with_unstable (core_bpe e) t allowed)"

definition decode_bytes :: "Encoding \<Rightarrow> token list \<Rightarrow> error + bytes" where
  "decode_bytes e tokens = core_decode_bytes (core_bpe e) tokens"

definition decode :: "Encoding \<Rightarrow> token list \<Rightarrow> errors_mode \<Rightarrow> error + pystr" where
  "decode e tokens errors =
     (case decode_bytes e tokens of
        Inl err \<Rightarrow> Inl err
      | Inr bs \<Rightarrow> utf8_decode errors bs)"

definition decode_single_token_bytes :: "Encoding \<Rightarrow> token \<Rightarrow> error + bytes" where
  "decode_single_token_bytes e tok = core_decode_single_token_bytes (core_bpe e) tok"

definition decode_tokens_bytes :: "Encoding \<Rightarrow> token list \<Rightarrow> error + bytes list" where
  "decode_tokens_bytes e tokens = map_result (decode_single_token_bytes e) tokens"

text \<open>
  The loop of \<open>decode_with_offsets\<close>, with its two variables. \<open>token[0]\<close> raises
  \<open>IndexError\<close> on empty bytes; the comparison is subtracted as \<open>0\<close> or \<open>1\<close>.
\<close>

fun offsets_loop :: "bytes list \<Rightarrow> int \<Rightarrow> int list \<Rightarrow> error + int list" where
  "offsets_loop [] text_len offsets = Inr offsets"
| "offsets_loop (tok # rest) text_len offsets =
     (case tok of
        [] \<Rightarrow> Inl IndexError
      | b # _ \<Rightarrow>
          offsets_loop rest
            (text_len + int (length (filter (\<lambda>c. \<not> is_continuation c) tok)))
            (offsets @ [max 0 (text_len - (if is_continuation b then 1 else 0))]))"

definition decode_with_offsets :: "Encoding \<Rightarrow> token list \<Rightarrow> error + (pystr \<times> int list)" where
  "decode_with_offsets e tokens =
     (case decode_tokens_bytes e tokens of
        Inl err \<Rightarrow> Inl err
      | Inr token_bytes \<Rightarrow>
          (case offsets_loop token_bytes 0 [] of
             Inl err \<Rightarrow> Inl err
           | Inr offsets \<Rightarrow>
               (case utf8_decode Strict (concat token_bytes) of
                  Inl err \<Rightarrow> Inl err
                | Inr t \<Rightarrow> Inr (t, offsets))))"

section \<open>The chunk splitter\<close>

text \<open>
  The token windows \<open>tokens[i:i + max_tokens] for i in range(0, len(tokens), max_tokens)\<close>
  of \<open>split_text_into_chunks\<close>.
\<close>

definition token_windows :: "token list \<Rightarrow> int \<Rightarrow> error + token list list" where
  "token_windows tokens max_tokens =
     (case py_range 0 (int (length tokens)) max_tokens of
        Inl err \<Rightarrow> Inl err
      | Inr starts \<Rightarrow> Inr (map (\<lambda>i. py_slice tokens i (i + max_tokens)) starts))"

text \<open>
  \<open>split_text_into_chunks\<close>; \<open>tiktoken.encoding_for_model\<close> is the parameter
  \<open>encoding_for_model\<close>.
\<close>

definition split_text_into_chunks ::
  "(string \<Rightarrow> error + Encoding) \<Rightarrow> pystr \<Rightarrow> int \<Rightarrow> string \<Rightarrow> error + pystr list" where
  "split_text_into_chunks encoding_for_model t max_tokens model =
     (case encoding_for_model model of
        Inl err \<Rightarrow> Inl err
      | Inr encoding \<Rightarrow>
          (case encode encoding t (Only []) AllSpecial of
             Inl err \<Rightarrow> Inl err
           | Inr tokens \<Rightarrow>
               (case token_windows tokens max_tokens of
                  Inl err \<Rightarrow> Inl err
                | Inr windows \<Rightarrow> map_result (\<lambda>w. decode encoding w Replace) windows)))"

section \<open>The byte-pair merge engine\<close>

text \<open>
  Modelled from the spec: the native merge engine \<open>_tiktoken.CoreBPE\<close>, which the
  repository imports and does not contain. The spec (4.1): starting from single bytes,
  repeatedly merge the adjacent pair of byte groups with the lowest rank among the pairs
  whose concatenation is in the rank table (the leftmost such pair when it occurs more
  than once), until no adjacent pair's concatenation is in the table; then map each
  group to its rank.
\<close>

fun pair_ranks :: "(bytes \<times> int) list \<Rightarrow> bytes list \<Rightarrow> int option list" where
  "pair_ranks ranks (a # b # rest) = map_of ranks (a @ b) # pair_ranks ranks (b # rest)"
| "pair_ranks ranks _ = []"

fun lowest_pair :: "int option list \<Rightarrow> (int \<times> nat) option" where
  "lowest_pair [] = None"
| "lowest_pair (r # rs) =
     (case r of
        None \<Rightarrow> (case lowest_pair rs of None \<Rightarrow> None | Some (v, i) \<Rightarrow> Some (v, Suc i))
      | Some u \<Rightarrow>
          (case lowest_pair rs of
             None \<Rightarrow> Some (u, 0)
           | Some (v, i) \<Rightarrow> if u \<le> v then Some (u, 0) else Some (v, Suc i)))"

fun merge_at :: "nat \<Rightarrow> bytes list \<Rightarrow> bytes list" where
  "merge_at 0 (a # b # rest) = (a @ b) # rest"
| "merge_at (Suc i) (a # rest) = a # merge_at i rest"
| "merge_at i parts = parts"

lemma length_pair_ranks: "length (pair_ranks ranks parts) = length parts - 1"
  by (induction ranks parts rule: pair_ranks.induct) auto

lemma lowest_pair_index: "lowest_pair rs = Some (v, i) \<Longrightarrow> i < length rs \<and> rs ! i = Some v"
  by (induction rs arbitrary: v i) (auto split: option.splits if_splits)

lemma length_merge_at: "Suc i < length parts \<Longrightarrow> Suc (length (merge_at i parts)) = length parts"
  by (induction i parts rule: merge_at.induct) auto

function bpe_merge :: "(bytes \<times> int) list \<Rightarrow> bytes list \<Rightarrow> bytes list" where
  "bpe_merge ranks parts =
     (case lowest_pair (pair_ranks ranks parts) of
        None \<Rightarrow> parts
      | Some (v, i) \<Rightarrow> bpe_merge ranks (merge_at i parts))"
  by pat_completeness auto
termination
proof (relation "measure (\<lambda>(ranks, parts). length parts)")
  show "wf (measure (\<lambda>(ranks, parts). length parts))" by simp
next
  fix ranks :: "(bytes \<times> int) list" and parts :: "bytes list" and x2 :: "int \<times> nat" and v i
  assume "lowest_pair (pair_ranks ranks parts) = Some x2" and "(v, i) = x2"
  then have "i < length (pair_ranks ranks parts)"
    using lowest_pair_index [of "pair_ranks ranks parts" v i] by simp
  then have "Suc i < length parts" by (simp add: length_pair_ranks)
  then have "length (merge_at i parts) < length parts"
    using length_merge_at [of i parts] by simp
  then show "((ranks, merge_at i parts), (ranks, parts)) \<in> measure (\<lambda>(ranks, parts). length parts)"
    by simp
qed

declare bpe_merge.simps [simp del]

definition byte_pair_encode :: "(bytes \<times> int) list \<Rightarrow> bytes \<Rightarrow> error + token list" where
  "byte_pair_encode ranks piece =
     map_result (\<lambda>g. case map_of ranks g of None \<Rightarrow> Inl KeyError | Some r \<Rightarrow> Inr r)
       (bpe_merge ranks (map (\<lambda>b. [b]) piece))"

text \<open>
  Modelled from the spec: \<open>encode_ordinary\<close> of the engine (4.2). The text is split
  by the pattern into pieces, each piece is merged on its own, and the results are
  concatenated in piece order. The regex engine is the parameter \<open>rx\<close>: the pieces of a
  text under a pattern.
\<close>

definition bpe_encode_ordinary ::
  "(string \<Rightarrow> pystr \<Rightarrow> pystr list) \<Rightarrow> (bytes \<times> int) list \<Rightarrow> string \<Rightarrow> pystr
   \<Rightarrow> error + token list" where
  "bpe_encode_ordinary rx ranks pat t =
     (case map_result (\<lambda>piece. byte_pair_encode ranks (utf8_bytes piece)) (rx pat t) of
        Inl e \<Rightarrow> Inl e
      | Inr tss \<Rightarrow> Inr (concat tss))"

text \<open>
  Modelled from the spec: \<open>encode\<close> of the engine (4.2): occurrences of allowed special
  tokens become their reserved ids, the ordinary text around them goes through the merge
  engine, in the order of the text. \<open>next_special\<close> finds the leftmost occurrence of a
  candidate literal: the text before it, the literal, the text after it.
\<close>

fun next_special :: "pystr list \<Rightarrow> pystr \<Rightarrow> (pystr \<times> pystr \<times> pystr) option" where
  "next_special cands [] = None"
| "next_special cands (c # cs) =
     (case find (\<lambda>lit. prefix lit (c # cs)) cands of
        Some lit \<Rightarrow> Some ([], lit, drop (length lit) (c # cs))
      | None \<Rightarrow>
          (case next_special cands cs of
             None \<Rightarrow> None
           | Some (pre, lit, post) \<Rightarrow> Some (c # pre, lit, post)))"

lemma next_special_split:
  "next_special cands t = Some (pre, lit, post) \<Longrightarrow> t = pre @ lit @ post \<and> lit \<in> set cands"
proof (induction t arbitrary: pre lit post)
  case Nil
  then show ?case by simp
next
  case (Cons c cs)
  show ?case
  proof (cases "find (\<lambda>lit. prefix lit (c # cs)) cands")
    case None
    with Cons.prems obtain pre' where
      "next_special cands cs = Some (pre', lit, post)" and "pre = c # pre'"
      by (auto split: option.splits)
    with Cons.IH show ?thesis by auto
  next
    case (Some l)
    with Cons.prems have eq: "pre = []" "lit = l" "post = drop (length l) (c # cs)"
      by auto
    from Some have "prefix l (c # cs)" and "l \<in> set cands"
      by (auto simp: find_Some_iff)
    then show ?thesis using eq by (auto simp: prefix_def)
  qed
qed

function bpe_encode ::
  "(string \<Rightarrow> pystr \<Rightarrow> pystr list) \<Rightarrow> (bytes \<times> int) list \<Rightarrow> (pystr \<times> int) list \<Rightarrow> string
   \<Rightarrow> pystr list \<Rightarrow> pystr \<Rightarrow> error + token list" where
  "bpe_encode rx ranks specials pat allowed t =
     (case next_special
             (filter (\<lambda>s. s \<in> set allowed \<and> s \<noteq> []) (map fst specials)) t of
        None \<Rightarrow> bpe_encode_ordinary rx ranks pat t
      | Some (pre, lit, post) \<Rightarrow>
          (case bpe_encode_ordinary rx ranks pat pre of
             Inl e \<Rightarrow> Inl e
           | Inr toks_pre \<Rightarrow>
               (case map_of specials lit of
                  None \<Rightarrow> Inl KeyError
                | Some sid \<Rightarrow>
                    (case bpe_encode rx ranks specials pat allowed post of
                       Inl e \<Rightarrow> Inl e
                     | Inr toks_post \<Rightarrow> Inr (toks_pre @ [sid] @ toks_post)))))"
  by pat_completeness auto
termination
proof (relation "measure (\<lambda>(rx, ranks, specials, pat, allowed, t). length t)")
  show "wf (measure (\<lambda>(rx, ranks, specials, pat, allowed, t). length t))" by simp
next
  fix rx :: "string \<Rightarrow> pystr \<Rightarrow> pystr list" and ranks :: "(bytes \<times> int) list"
    and specials :: "(pystr \<times> int) list" and pat :: string and allowed :: "pystr list"
    and t :: pystr and x2 :: "pystr \<times> pystr \<times> pystr" and pre :: pystr
    and y :: "pystr \<times> pystr" and lit post :: pystr and toks_pre :: "token list" and sid :: int
  assume ns: "next_special (filter (\<lambda>s. s \<in> set allowed \<and> s \<noteq> []) (map fst specials)) t = Some x2"
    and "(pre, y) = x2" and "(lit, post) = y"
  then have "next_special (filter (\<lambda>s. s \<in> set allowed \<and> s \<noteq> []) (map fst specials)) t
             = Some (pre, lit, post)"
    by simp
  from next_special_split [OF this] have "t = pre @ lit @ post" and "lit \<noteq> []"
    by auto
  then have "length post < length t" by simp
  then show "((rx, ranks, specials, pat, allowed, post), (rx, ranks, specials, pat, allowed, t))
             \<in> measure (\<lambda>(rx, ranks, specials, pat, allowed, t). length t)"
    by simp
qed

declare bpe_encode.simps [simp del]

text \<open>
  Modelled from the spec: \<open>decode_bytes\<close> of the engine (4.2): an ordinary token
  decodes to its byte sequence in the rank table, a special token to the UTF-8 bytes of
  its literal; a token with no mapping is an error.
\<close>

definition bpe_decode_single_token_bytes ::
  "(bytes \<times> int) list \<Rightarrow> (pystr \<times> int) list \<Rightarrow> token \<Rightarrow> error + bytes" where
  "bpe_decode_single_token_bytes ranks specials tok =
     (case find (\<lambda>(b, r). r = tok) ranks of
        Some (b, r) \<Rightarrow> Inr b
      | None \<Rightarrow>
          (case find (\<lambda>(s, r). r = tok) specials of
             Some (s, r) \<Rightarrow> Inr (utf8_bytes s)
           | None \<Rightarrow> Inl KeyError))"

definition bpe_decode_bytes ::
  "(bytes \<times> int) list \<Rightarrow> (pystr \<times> int) list \<Rightarrow> token list \<Rightarrow> error + bytes" where
  "bpe_decode_bytes ranks specials tokens =
     (case map_result (bpe_decode_single_token_bytes ranks specials) tokens of
        Inl e \<Rightarrow> Inl e
      | Inr bss \<Rightarrow> Inr (concat bss))"

text \<open>
  Modelled from the spec: the engine as the code sees it. An input string with a
  surrogate code point cannot be represented as valid UTF-8 (4.2): the call raises
  \<open>UnicodeEncodeError\<close>, which is what the code's \<open>except\<close> clauses catch. The
  enumeration of unstable completions is not specified: it is the parameter
  \<open>unstable\<close>.
\<close>

definition merge_engine ::
  "(string \<Rightarrow> pystr \<Rightarrow> pystr list)
   \<Rightarrow> (pystr \<Rightarrow> pystr list \<Rightarrow> error + (token list \<times> token list list))
   \<Rightarrow> (bytes \<times> int) list \<Rightarrow> (pystr \<times> int) list \<Rightarrow> string \<Rightarrow> CoreBPE" where
  "merge_engine rx unstable ranks specials pat =
     \<lparr>core_encode_ordinary =
        (\<lambda>t. if has_surrogate t then Inl UnicodeEncodeError
             else bpe_encode_ordinary rx ranks pat t),
      core_encode =
        (\<lambda>t allowed.
           if has_surrogate t then Inl UnicodeEncodeError
           else bpe_encode rx ranks specials pat allowed t),
      core_encode_with_unstable = unstable,
      core_decode_bytes = bpe_decode_bytes ranks specials,
      core_decode_single_token_bytes = bpe_decode_single_token_bytes ranks specials\<rparr>"

text \<open>
  A vocabulary is well formed when its ranks are unique and every single byte has one.
\<close>

definition well_formed_ranks :: "(bytes \<times> int) list \<Rightarrow> bool" where
  "well_formed_ranks ranks =
     (distinct (map snd ranks) \<and> (\<forall>b < 256. map_of ranks [b] \<noteq> None))"

section \<open>The special-token scan, as the spec words it\<close>

text \<open>
  The spec (4.2) on \<open>encode\<close>: resolve \<open>"all"\<close> for \<open>allowed_special\<close> to the full
  special-token set, and \<open>"all"\<close> for \<open>disallowed_special\<close> to the full set minus the
  allowed one; if the resolved disallowed set is non-empty, scan the text for any
  disallowed literal. The result is the literal found, if any.
\<close>

definition resolve_allowed :: "pystr list \<Rightarrow> special_arg \<Rightarrow> pystr list" where
  "resolve_allowed specials a = (case a of AllSpecial \<Rightarrow> specials | Only x \<Rightarrow> x)"

definition resolve_disallowed :: "pystr list \<Rightarrow> special_arg \<Rightarrow> special_arg \<Rightarrow> pystr list" where
  "resolve_disallowed specials a d =
     (case d of AllSpecial \<Rightarrow> set_minus specials (resolve_allowed specials a) | Only y \<Rightarrow> y)"

definition disallowed_scan :: "pystr list \<Rightarrow> special_arg \<Rightarrow> special_arg \<Rightarrow> pystr \<Rightarrow> pystr option" where
  "disallowed_scan specials a d t =
     (if resolve_disallowed specials a d = [] then None
      else special_token_search (resolve_disallowed specials a d) t)"

section \<open>A small vocabulary\<close>

text \<open>
  The 256 single bytes with their values as ranks, the pair \<open>ab\<close> with rank 256, and
  two special tokens. The pattern takes a non-empty text as one piece.
\<close>

definition example_ranks :: "(bytes \<times> int) list" where
  "example_ranks = map (\<lambda>b. ([b], int b)) [0..<256] @ [([97, 98], 256)]"

definition example_specials :: "(pystr \<times> int) list" where
  "example_specials = [(str ''<a>'', 257), (str ''<b>'', 258)]"

definition example_rx :: "string \<Rightarrow> pystr \<Rightarrow> pystr list" where
  "example_rx pat t = (if t = [] then [] else [t])"

definition example_unstable :: "pystr \<Rightarrow> pystr list \<Rightarrow> error + (token list \<times> token list list)" where
  "example_unstable t allowed = Inr ([], [])"

definition example_new_core ::
  "(bytes \<times> int) list \<Rightarrow> (pystr \<times> int) list \<Rightarrow> string \<Rightarrow> error + CoreBPE" where
  "example_new_core ranks specials pat =
     Inr (merge_engine example_rx example_unstable ranks specials pat)"

definition example_encoding :: Encoding where
  "example_encoding =
     \<lparr>name = ''example'', pat_str = ''(?s).+'', mergeable_ranks = example_ranks,
      special_tokens = example_specials, max_token_value = 258,
      core_bpe = merge_engine example_rx example_unstable example_ranks example_specials
                   ''(?s).+''\<rparr>"

definition example_encoding_for_model :: "string \<Rightarrow> error + Encoding" where
  "example_encoding_for_model model = Inr example_encoding"

section \<open>Auxiliary facts\<close>

lemma map_result_Inr_length: "map_result f xs = Inr ys \<Longrightarrow> length ys = length xs"
  by (induction xs arbitrary: ys) (auto split: sum.splits)

lemma map_result_Inr_nth:
  "map_result f xs = Inr ys \<Longrightarrow> i < length xs \<Longrightarrow> f (xs ! i) = Inr (ys ! i)"
proof (induction xs arbitrary: ys i)
  case Nil
  then show ?case by simp
next
  case (Cons x xs)
  then obtain y ys' where "f x = Inr y" "map_result f xs = Inr ys'" "ys = y # ys'"
    by (auto split: sum.splits)
  with Cons show ?case by (cases i) auto
qed

lemma map_result_succeeds:
  "(\<And>x. x \<in> set xs \<Longrightarrow> \<exists>y. f x = Inr y) \<Longrightarrow> \<exists>ys. map_result f xs = Inr ys"
proof (induction xs)
  case Nil
  then show ?case by simp
next
  case (Cons x xs)
  then obtain y ys where "f x = Inr y" "map_result f xs = Inr ys"
    by (metis list.set_intros(1) list.set_intros(2))
  then show ?case by simp
qed

lemma set_dedup: "set (dedup xs) = set xs"
  by (induction xs rule: dedup.induct) auto

lemma distinct_dedup: "distinct (dedup xs)"
  by (induction xs rule: dedup.induct) (auto simp: set_dedup)

lemma dedup_distinct: "distinct xs \<Longrightarrow> dedup xs = xs"
proof (induction xs)
  case Nil
  then show ?case by simp
next
  case (Cons x xs)
  then have "filter (\<lambda>y. y \<noteq> x) xs = xs" by (auto intro: filter_True)
  with Cons show ?case by simp
qed

lemma dedup_idem: "dedup (dedup xs) = dedup xs"
  by (simp add: dedup_distinct distinct_dedup)

lemma dedup_Nil_iff: "dedup xs = [] \<longleftrightarrow> xs = []"
  by (cases xs) auto

lemma find_filter_neq: "\<not> P x \<Longrightarrow> find P (filter (\<lambda>y. y \<noteq> x) xs) = find P xs"
  by (induction xs) auto

lemma find_dedup: "find P (dedup xs) = find P xs"
  by (induction xs rule: dedup.induct) (auto simp: find_filter_neq)

lemma set_minus_dedup: "set_minus xs (dedup ys) = set_minus xs ys"
  by (simp add: set_minus_def set_dedup)

lemma special_token_match_dedup: "special_token_match (dedup toks) t = special_token_match toks t"
  by (simp add: special_token_match_def find_dedup dedup_Nil_iff)

lemma special_token_search_dedup: "special_token_search (dedup toks) t = special_token_search toks t"
  by (induction t) (auto simp: special_token_match_dedup split: option.splits)

lemma encode_resolved:
  "encode e t
     (Only (case a of AllSpecial \<Rightarrow> special_tokens_set e | Only x \<Rightarrow> py_set x))
     (Only (case d of
              AllSpecial \<Rightarrow> set_minus (special_tokens_set e)
                       (case a of AllSpecial \<Rightarrow> special_tokens_set e | Only x \<Rightarrow> py_set x)
            | Only y \<Rightarrow> py_frozenset y))
   = encode e t a d"
  by (cases a; cases d)
     (simp_all add: encode_def Let_def py_set_def py_frozenset_def dedup_idem set_minus_dedup
        dedup_Nil_iff split: option.splits)

lemma encode_scan:
  "encode e t a d =
     (case disallowed_scan (special_tokens_set e) a d t of
        Some m \<Rightarrow> Inl (DisallowedSpecialToken m)
      | None \<Rightarrow>
          (if core_encode (core_bpe e) t (py_set (resolve_allowed (special_tokens_set e) a))
              = Inl UnicodeEncodeError
           then core_encode (core_bpe e) (surrogate_fallback t)
                  (py_set (resolve_allowed (special_tokens_set e) a))
           else core_encode (core_bpe e) t
                  (py_set (resolve_allowed (special_tokens_set e) a))))"
  by (cases a; cases d)
     (simp_all add: encode_def disallowed_scan_def resolve_allowed_def resolve_disallowed_def
        Let_def py_frozenset_def special_token_search_dedup raise_disallowed_special_token_def
        split: option.splits)

lemma encode_with_unstable_scan:
  "encode_with_unstable e t a (Only d) =
     (case disallowed_scan (special_tokens_set e) a (Only d) t of
        Some m \<Rightarrow> Inl (DisallowedSpecialToken m)
      | None \<Rightarrow>
          core_encode_with_unstable (core_bpe e) t
            (case a of AllSpecial \<Rightarrow> special_tokens_set e | Only x \<Rightarrow> py_set x))"
  by (cases a)
     (simp_all add: encode_with_unstable_def disallowed_scan_def resolve_allowed_def
        resolve_disallowed_def Let_def py_frozenset_def py_set_def special_token_search_dedup
        dedup_Nil_iff raise_disallowed_special_token_def split: option.splits)

lemma encode_with_unstable_all:
  "encode_with_unstable e t a AllSpecial =
     (if resolve_disallowed (special_tokens_set e) a AllSpecial = []
      then core_encode_with_unstable (core_bpe e) t
             (case a of AllSpecial \<Rightarrow> special_tokens_set e | Only x \<Rightarrow> py_set x)
      else Inl TypeError)"
  by (cases a)
     (simp_all add: encode_with_unstable_def resolve_allowed_def resolve_disallowed_def
        Let_def py_set_def set_minus_dedup)

lemma fold_max_Max: "fold max xs (x::int) = Max (set (x # xs))"
  by (rule Max.set_eq_fold [symmetric])

lemma py_max_dense:
  assumes "xs \<noteq> []" and "set xs = {lo..<hi}"
  shows "py_max xs = Inr (hi - 1)" and "py_max_default xs d = hi - 1"
proof -
  from assms obtain x rest where xs: "xs = x # rest" by (cases xs) auto
  from assms have ne: "lo < hi" by (cases "lo < hi") auto
  have "Max (set xs) = hi - 1"
    unfolding assms(2) using ne by (intro Max_eqI) auto
  then show "py_max xs = Inr (hi - 1)" and "py_max_default xs d = hi - 1"
    by (simp_all add: py_max_def py_max_default_def xs fold_max_Max)
qed

lemma max_token_value_dense:
  assumes "ranks \<noteq> []"
    and "set (map snd ranks) = {0..<int (length ranks)}"
    and "set (map snd specials) =
           {int (length ranks)..<int (length ranks) + int (length specials)}"
  shows "py_max (map snd ranks) = Inr (int (length ranks) - 1)"
    and "max (int (length ranks) - 1) (py_max_default (map snd specials) 0)
         = max (int (length ranks) - 1) (int (length ranks) + int (length specials) - 1)"
proof -
  show "py_max (map snd ranks) = Inr (int (length ranks) - 1)"
    using assms(1,2) by (intro py_max_dense(1)) auto
  show "max (int (length ranks) - 1) (py_max_default (map snd specials) 0)
         = max (int (length ranks) - 1) (int (length ranks) + int (length specials) - 1)"
  proof (cases "specials = []")
    case True
    with assms(1) show ?thesis by (cases ranks) (auto simp: py_max_default_def)
  next
    case False
    then have "py_max_default (map snd specials) 0
               = int (length ranks) + int (length specials) - 1"
      using assms(3) by (intro py_max_dense(2)) auto
    then show ?thesis by simp
  qed
qed

subsection \<open>Ranges and slices\<close>

lemma range_from_length:
  "0 < step \<Longrightarrow> length (range_from i stop step) = nat (- ((i - stop) div step))"
proof (induction i stop step rule: range_from.induct)
  case (1 i stop step)
  show ?case
  proof (cases "i < stop")
    case True
    with "1.prems" have IH:
      "length (range_from (i + step) stop step) = nat (- ((i + step - stop) div step))"
      using "1.IH" by simp
    have "i + step - stop = (i - stop) + step" by simp
    then have d: "(i + step - stop) div step = (i - stop) div step + 1"
      using "1.prems" by (metis div_add_self2 less_irrefl)
    have neg: "(i - stop) div step < 0"
      using True "1.prems" by (simp add: div_neg_pos_less0)
    show ?thesis
      using True "1.prems" IH d neg by (simp add: range_from.simps [of i stop step])
  next
    case False
    then have "0 \<le> (i - stop) div step"
      using "1.prems" by (simp add: pos_imp_zdiv_nonneg_iff)
    with False "1.prems" show ?thesis
      by (simp add: range_from.simps [of i stop step])
  qed
qed

lemma range_from_nth:
  "0 < step \<Longrightarrow> j < length (range_from i stop step)
   \<Longrightarrow> range_from i stop step ! j = i + int j * step \<and> i + int j * step < stop"
proof (induction i stop step arbitrary: j rule: range_from.induct)
  case (1 i stop step)
  from "1.prems" have lt: "i < stop"
    by (cases "i < stop") (auto simp: range_from.simps [of i stop step])
  then have unfold: "range_from i stop step = i # range_from (i + step) stop step"
    using "1.prems" by (simp add: range_from.simps [of i stop step])
  show ?case
  proof (cases j)
    case 0
    with unfold lt show ?thesis by simp
  next
    case (Suc j')
    with "1.prems" unfold have "j' < length (range_from (i + step) stop step)" by simp
    with "1.IH" [of j'] lt "1.prems" have
      "range_from (i + step) stop step ! j' = i + step + int j' * step
       \<and> i + step + int j' * step < stop"
      by simp
    with Suc unfold show ?thesis by (simp add: algebra_simps)
  qed
qed

lemma py_slice_window:
  assumes "0 < k" and "0 \<le> i" and "i < int (length toks)"
  shows "py_slice toks i (i + k) = take (nat k) (drop (nat i) toks)"
proof (cases "i + k \<le> int (length toks)")
  case True
  have "nat (i + k - i) = nat k" by simp
  with True assms show ?thesis
    by (simp add: py_slice_def Let_def min_def)
next
  case False
  then have "length (drop (nat i) toks) \<le> nat k"
    using assms by simp
  moreover have "length (drop (nat i) toks) \<le> nat (int (length toks) - i)"
    using assms by simp
  ultimately show ?thesis
    using False assms by (simp add: py_slice_def Let_def min_def)
qed

lemma concat_windows_drop:
  "0 < k \<Longrightarrow> 0 \<le> i \<Longrightarrow>
   concat (map (\<lambda>i. py_slice toks i (i + k)) (range_from i (int (length toks)) k))
   = drop (nat i) toks"
proof (induction i "int (length toks)" k rule: range_from.induct)
  case (1 i step)
  show ?case
  proof (cases "i < int (length toks)")
    case True
    have sl: "py_slice toks i (i + step) = take (nat step) (drop (nat i) toks)"
      using True "1.prems" by (simp add: py_slice_window)
    have IH: "concat (map (\<lambda>i. py_slice toks i (i + step))
                 (range_from (i + step) (int (length toks)) step))
              = drop (nat (i + step)) toks"
      using "1.hyps" True "1.prems" by simp
    have dd: "drop (nat (i + step)) toks = drop (nat step) (drop (nat i) toks)"
      using "1.prems" by (simp add: nat_add_distrib add.commute)
    have "concat (map (\<lambda>i. py_slice toks i (i + step))
            (range_from i (int (length toks)) step))
          = py_slice toks i (i + step)
            @ concat (map (\<lambda>i. py_slice toks i (i + step))
                (range_from (i + step) (int (length toks)) step))"
      using True "1.prems" by (simp add: range_from.simps [of i "int (length toks)" step])
    also have "\<dots> = take (nat step) (drop (nat i) toks)
                     @ drop (nat step) (drop (nat i) toks)"
      unfolding sl IH dd ..
    also have "\<dots> = drop (nat i) toks" by (rule append_take_drop_id)
    finally show ?thesis .
  next
    case False
    with "1.prems" show ?thesis
      by (simp add: range_from.simps [of i "int (length toks)" step])
  qed
qed

lemma window_length:
  "0 < k \<Longrightarrow> 0 \<le> i \<Longrightarrow> i < int (length toks)
   \<Longrightarrow> int (length (py_slice toks i (i + k))) = min k (int (length toks) - i)"
  by (auto simp: py_slice_def Let_def min_def)

subsection \<open>The offsets loop and the length of decoded text\<close>

lemma offsets_loop_succeeds:
  "(\<forall>tb \<in> set tbs. tb \<noteq> []) \<Longrightarrow> \<exists>offs. offsets_loop tbs L acc = Inr offs"
  by (induction tbs arbitrary: L acc) (auto split: list.splits)

lemma offsets_loop_nth:
  "offsets_loop tbs L acc = Inr offs \<Longrightarrow>
     length offs = length acc + length tbs
     \<and> (\<forall>i < length acc. offs ! i = acc ! i)
     \<and> (\<forall>i < length tbs.
           tbs ! i \<noteq> []
           \<and> offs ! (length acc + i) =
               max 0 (L + int (length (filter (\<lambda>c. \<not> is_continuation c) (concat (take i tbs))))
                      - (if is_continuation (hd (tbs ! i)) then 1 else 0)))"
proof (induction tbs arbitrary: L acc)
  case Nil
  then show ?case by simp
next
  case (Cons tb tbs)
  from Cons.prems obtain b r where tb: "tb = b # r" by (cases tb) auto
  define L' where "L' = L + int (length (filter (\<lambda>c. \<not> is_continuation c) tb))"
  define acc' where "acc' = acc @ [max 0 (L - (if is_continuation b then 1 else 0))]"
  from Cons.prems tb have run: "offsets_loop tbs L' acc' = Inr offs"
    by (simp add: L'_def acc'_def)
  note IH = Cons.IH [OF run]
  have len: "length offs = length acc + length (tb # tbs)"
    using IH by (simp add: acc'_def)
  have old: "offs ! i = acc ! i" if "i < length acc" for i
  proof -
    from that have "i < length acc'" by (simp add: acc'_def)
    with IH have "offs ! i = acc' ! i" by blast
    with that show ?thesis by (simp add: acc'_def nth_append)
  qed
  have new: "(tb # tbs) ! i \<noteq> []
           \<and> offs ! (length acc + i) =
               max 0 (L + int (length (filter (\<lambda>c. \<not> is_continuation c)
                                        (concat (take i (tb # tbs)))))
                      - (if is_continuation (hd ((tb # tbs) ! i)) then 1 else 0))"
    if "i < length (tb # tbs)" for i
  proof (cases i)
    case 0
    have "length acc < length acc'" by (simp add: acc'_def)
    with IH have "offs ! length acc = acc' ! length acc" by blast
    with 0 tb show ?thesis by (simp add: acc'_def)
  next
    case (Suc j)
    with that have j: "j < length tbs" by simp
    with IH have "tbs ! j \<noteq> []
           \<and> offs ! (length acc' + j) =
               max 0 (L' + int (length (filter (\<lambda>c. \<not> is_continuation c) (concat (take j tbs))))
                      - (if is_continuation (hd (tbs ! j)) then 1 else 0))"
      by blast
    with Suc show ?thesis by (simp add: acc'_def L'_def)
  qed
  from len old new show ?case by blast
qed

lemma offsets_loop_sorted:
  "offsets_loop tbs L acc = Inr offs \<Longrightarrow> 0 \<le> L \<Longrightarrow>
     \<exists>new. offs = acc @ new \<and> sorted new
       \<and> (\<forall>x \<in> set new. max 0 (L - 1) \<le> x
             \<and> x \<le> L + int (length (filter (\<lambda>c. \<not> is_continuation c) (concat tbs))))"
proof (induction tbs arbitrary: L acc)
  case Nil
  then show ?case by simp
next
  case (Cons tb tbs)
  from Cons.prems obtain b r where tb: "tb = b # r" by (cases tb) auto
  define n where "n = int (length (filter (\<lambda>c. \<not> is_continuation c) tb))"
  define L' where "L' = L + n"
  define x0 where "x0 = max 0 (L - (if is_continuation b then 1 else 0))"
  have n0: "0 \<le> n" by (simp add: n_def)
  have n1: "1 \<le> n" if "\<not> is_continuation b" using that by (simp add: n_def tb)
  from Cons.prems tb have run: "offsets_loop tbs L' (acc @ [x0]) = Inr offs"
    by (simp add: L'_def x0_def n_def)
  have "0 \<le> L'" using Cons.prems n0 by (simp add: L'_def)
  from Cons.IH [OF run this] obtain new where
    offs: "offs = (acc @ [x0]) @ new" and srt: "sorted new"
    and bnd: "\<forall>x \<in> set new. max 0 (L' - 1) \<le> x
             \<and> x \<le> L' + int (length (filter (\<lambda>c. \<not> is_continuation c) (concat tbs)))"
    by blast
  have low: "x0 \<le> max 0 (L' - 1)"
    using n0 n1 Cons.prems(2) by (cases "is_continuation b") (simp_all add: x0_def L'_def)
  have tot: "L + int (length (filter (\<lambda>c. \<not> is_continuation c) (concat (tb # tbs))))
             = L' + int (length (filter (\<lambda>c. \<not> is_continuation c) (concat tbs)))"
    by (simp add: L'_def n_def)
  have "sorted (x0 # new)"
    using srt bnd low by (auto simp: order_trans)
  moreover have "\<forall>x \<in> set (x0 # new). max 0 (L - 1) \<le> x
        \<and> x \<le> L + int (length (filter (\<lambda>c. \<not> is_continuation c) (concat (tb # tbs))))"
  proof
    fix x assume "x \<in> set (x0 # new)"
    then consider "x = x0" | "x \<in> set new" by auto
    then show "max 0 (L - 1) \<le> x
        \<and> x \<le> L + int (length (filter (\<lambda>c. \<not> is_continuation c) (concat (tb # tbs))))"
    proof cases
      case 1
      then show ?thesis
        unfolding tot using Cons.prems(2) n0 by (simp add: x0_def L'_def)
    next
      case 2
      with bnd have "max 0 (L' - 1) \<le> x"
        and "x \<le> L' + int (length (filter (\<lambda>c. \<not> is_continuation c) (concat tbs)))"
        by auto
      moreover have "max 0 (L - 1) \<le> max 0 (L' - 1)" using n0 by (simp add: L'_def)
      ultimately show ?thesis unfolding tot by linarith
    qed
  qed
  moreover have "offs = acc @ (x0 # new)" using offs by simp
  ultimately show ?case by blast
qed

lemma utf8_next_Some:
  "utf8_next bs = (Some c, n) \<Longrightarrow>
     0 < n \<and> n \<le> length bs
     \<and> length (filter (\<lambda>c. \<not> is_continuation c) (take n bs)) = 1"
  by (auto simp: utf8_next_def is_continuation_def split: list.splits if_splits)

lemma utf8_decode_strict_length:
  "utf8_decode Strict bs = Inr t
   \<Longrightarrow> length t = length (filter (\<lambda>c. \<not> is_continuation c) bs)"
proof (induction Strict bs arbitrary: t rule: utf8_decode.induct)
  case (1 bs)
  show ?case
  proof (cases "bs = []")
    case True
    with "1.prems" show ?thesis by (simp add: utf8_decode.simps [of Strict "[]"])
  next
    case False
    obtain r n where nx: "utf8_next bs = (r, n)" by (cases "utf8_next bs")
    with False "1.prems" obtain c t' where
      r: "r = Some c" and rest: "utf8_decode Strict (drop n bs) = Inr t'" and t: "t = c # t'"
      by (auto simp: utf8_decode.simps [of Strict bs] split: option.splits sum.splits)
    from "1.hyps"(2) [OF False nx [symmetric, unfolded r] refl rest]
    have IH: "length t' = length (filter (\<lambda>c. \<not> is_continuation c) (drop n bs))" .
    from utf8_next_Some [OF nx [unfolded r]]
    have one: "length (filter (\<lambda>c. \<not> is_continuation c) (take n bs)) = 1" by simp
    have "filter (\<lambda>c. \<not> is_continuation c) bs
          = filter (\<lambda>c. \<not> is_continuation c) (take n bs)
            @ filter (\<lambda>c. \<not> is_continuation c) (drop n bs)"
      by (metis append_take_drop_id filter_append)
    with IH one t show ?thesis by simp
  qed
qed

subsection \<open>Surrogates and the errors of the merge engine\<close>

lemma not_surrogate_replacement: "\<not> is_surrogate 0xFFFD"
  by (simp add: is_surrogate_def)

lemma has_surrogate_Cons: "has_surrogate (c # t) = (is_surrogate c \<or> has_surrogate t)"
  by (simp add: has_surrogate_def)

lemma has_surrogate_Nil: "\<not> has_surrogate []"
  by (simp add: has_surrogate_def)

lemma utf16_decode_units_no_surrogate: "\<not> has_surrogate (utf16_decode_units us)"
proof (induction us rule: utf16_decode_units.induct)
  case 1
  then show ?case by (simp add: has_surrogate_Nil)
next
  case (2 u us)
  show ?case
  proof (cases "is_surrogate u")
    case False
    with "2.IH"(1) show ?thesis by (simp add: has_surrogate_Cons)
  next
    case True
    note surr = this
    show ?thesis
    proof (cases "u < 0xDC00")
      case False
      with surr "2.IH"(4) show ?thesis
        by (simp add: has_surrogate_Cons not_surrogate_replacement)
    next
      case True
      note high = this
      show ?thesis
      proof (cases us)
        case Nil
        with surr high show ?thesis
          by (simp add: has_surrogate_Cons has_surrogate_Nil not_surrogate_replacement)
      next
        case (Cons v vs)
        show ?thesis
        proof (cases "0xDC00 \<le> v \<and> v < 0xE000")
          case True
          have step: "utf16_decode_units (u # us)
                = (0x10000 + (u - 0xD800) * 0x400 + (v - 0xDC00)) # utf16_decode_units vs"
            using surr high Cons True by simp
          have "\<not> has_surrogate (utf16_decode_units vs)"
            using "2.IH"(2) [OF _ high Cons] surr True by simp
          moreover have "\<not> is_surrogate (0x10000 + (u - 0xD800) * 0x400 + (v - 0xDC00))"
            by (simp add: is_surrogate_def)
          ultimately show ?thesis
            unfolding step has_surrogate_Cons by simp
        next
          case False
          have step: "utf16_decode_units (u # us) = 0xFFFD # utf16_decode_units us"
            using surr high Cons False by simp
          have "\<not> has_surrogate (utf16_decode_units us)"
            using "2.IH"(3) [OF _ high Cons] surr False by simp
          then show ?thesis
            unfolding step has_surrogate_Cons using not_surrogate_replacement by simp
        qed
      qed
    qed
  qed
qed

lemma surrogate_fallback_no_surrogate: "\<not> has_surrogate (surrogate_fallback t)"
  by (simp add: surrogate_fallback_def utf16_decode_replace_def utf16_encode_surrogatepass_def
      utf16_decode_units_no_surrogate)

lemma map_result_Inl:
  "map_result f xs = Inl e \<Longrightarrow> \<exists>x \<in> set xs. f x = Inl e"
  by (induction xs) (auto split: sum.splits)

lemma byte_pair_encode_error: "byte_pair_encode ranks piece = Inl e \<Longrightarrow> e = KeyError"
  by (auto simp: byte_pair_encode_def dest!: map_result_Inl split: option.splits)

lemma bpe_encode_ordinary_error: "bpe_encode_ordinary rx ranks pat t = Inl e \<Longrightarrow> e = KeyError"
  by (auto simp: bpe_encode_ordinary_def dest!: map_result_Inl byte_pair_encode_error
      split: sum.splits)

lemma bpe_encode_error:
  "bpe_encode rx ranks specials pat allowed t = Inl e \<Longrightarrow> e = KeyError"
proof (induction rx ranks specials pat allowed t rule: bpe_encode.induct)
  case (1 rx ranks specials pat allowed t)
  show ?case
  proof (cases "next_special (filter (\<lambda>s. s \<in> set allowed \<and> s \<noteq> []) (map fst specials)) t")
    case None
    with "1.prems" show ?thesis
      by (simp add: bpe_encode.simps [of rx ranks specials pat allowed t]
          bpe_encode_ordinary_error)
  next
    case (Some trip)
    note ns = this
    obtain pre lit post where trip: "trip = (pre, lit, post)" by (cases trip)
    show ?thesis
    proof (cases "bpe_encode_ordinary rx ranks pat pre")
      case (Inl e')
      with "1.prems" ns trip have "e = e'"
        by (simp add: bpe_encode.simps [of rx ranks specials pat allowed t])
      with Inl show ?thesis by (simp add: bpe_encode_ordinary_error)
    next
      case (Inr toks_pre)
      note pre_ok = this
      show ?thesis
      proof (cases "map_of specials lit")
        case None
        with "1.prems" ns trip pre_ok show ?thesis
          by (simp add: bpe_encode.simps [of rx ranks specials pat allowed t])
      next
        case (Some sid)
        with "1.prems" ns trip pre_ok
        have "bpe_encode rx ranks specials pat allowed post = Inl e"
          by (simp add: bpe_encode.simps [of rx ranks specials pat allowed t]
              split: sum.splits)
        with "1.IH" [OF ns trip [symmetric] refl pre_ok Some]
        show ?thesis by simp
      qed
    qed
  qed
qed

lemma merge_engine_rejects_surrogates:
  "(core_encode_ordinary (merge_engine rx unstable ranks specials pat) t = Inl UnicodeEncodeError)
     = has_surrogate t"
  "(core_encode (merge_engine rx unstable ranks specials pat) t allowed = Inl UnicodeEncodeError)
     = has_surrogate t"
  using bpe_encode_ordinary_error [of rx ranks pat t UnicodeEncodeError]
    bpe_encode_error [of rx ranks specials pat allowed t UnicodeEncodeError]
  by (auto simp: merge_engine_def)

subsection \<open>UTF-8: decoding what was encoded\<close>

lemma mod_64_byte: "(x :: nat) mod 0x40 < 0x80"
  by (rule less_trans [OF mod_less_divisor]) simp_all

lemma utf8_encode_cp_bytes: "c < 0x110000 \<Longrightarrow> valid_bytes (utf8_encode_cp c)"
proof -
  assume c: "c < 0x110000"
  have d1: "c div 0x40 < 0x40" if "c < 0x800" using that by (simp add: less_mult_imp_div_less)
  have d2: "c div 0x1000 < 0x20" if "c < 0x10000" using that by (simp add: less_mult_imp_div_less)
  have d3: "c div 0x40000 < 0x10" using c by (simp add: less_mult_imp_div_less)
  show ?thesis
    using d1 d2 d3 by (simp add: utf8_encode_cp_def valid_bytes_def mod_64_byte)
qed

lemma utf8_encode_cp_nonempty: "utf8_encode_cp c \<noteq> []"
  by (simp add: utf8_encode_cp_def)

lemma utf8_next_encode_1:
  assumes "c < 0x80"
  shows "utf8_next (utf8_encode_cp c @ rest) = (Some c, length (utf8_encode_cp c))"
  using assms by (simp add: utf8_next_def utf8_encode_cp_def)

lemma utf8_next_encode_2:
  assumes "0x80 \<le> c" and "c < 0x800"
  shows "utf8_next (utf8_encode_cp c @ rest) = (Some c, length (utf8_encode_cp c))"
proof -
  define q where "q = c div 0x40"
  define r where "r = c mod 0x40"
  have c: "c = q * 0x40 + r" and r: "r < 0x40" by (simp_all add: q_def r_def)
  have q: "2 \<le> q" "q < 0x20" using assms by (simp_all add: q_def)
  have enc: "utf8_encode_cp c = [0xC0 + q, 0x80 + r]"
    using assms by (simp add: utf8_encode_cp_def q_def r_def)
  show ?thesis
    unfolding enc using q r c by (simp add: utf8_next_def is_continuation_def)
qed

lemma utf8_next_encode_3:
  assumes "0x800 \<le> c" and "c < 0x10000" and "\<not> is_surrogate c"
  shows "utf8_next (utf8_encode_cp c @ rest) = (Some c, length (utf8_encode_cp c))"
proof -
  define a where "a = c div 0x1000"
  define b where "b = (c div 0x40) mod 0x40"
  define r where "r = c mod 0x40"
  have "c div 0x40 div 0x40 = c div 0x1000"
    by (simp add: div_mult2_eq [symmetric])
  then have "c div 0x40 = a * 0x40 + b"
    unfolding a_def b_def using div_mult_mod_eq [of "c div 0x40" "0x40"] by simp
  then have c: "c = a * 0x1000 + b * 0x40 + r"
    unfolding r_def using div_mult_mod_eq [of c "0x40"] by simp
  have r: "r < 0x40" and b: "b < 0x40" by (simp_all add: b_def r_def)
  have a: "a < 0x10" using assms(2) by (simp add: a_def less_mult_imp_div_less)
  have lo: "0x20 \<le> b" if "a = 0" using that assms(1) c r by simp
  have hi: "b < 0x20" if "a = 0xD"
  proof (rule ccontr)
    assume "\<not> b < 0x20"
    then have "0x20 \<le> b" by simp
    then have "0xD800 \<le> c" using that c by simp
    moreover have "c < 0xE000" using that c b r by simp
    ultimately show False using assms(3) by (simp add: is_surrogate_def)
  qed
  have enc: "utf8_encode_cp c = [0xE0 + a, 0x80 + b, 0x80 + r]"
    using assms by (simp add: utf8_encode_cp_def a_def b_def r_def)
  show ?thesis
    unfolding enc using a b r lo hi c by (auto simp: utf8_next_def is_continuation_def)
qed

lemma utf8_next_encode_4:
  assumes "0x10000 \<le> c" and "c < 0x110000"
  shows "utf8_next (utf8_encode_cp c @ rest) = (Some c, length (utf8_encode_cp c))"
proof -
  define a where "a = c div 0x40000"
  define b where "b = (c div 0x1000) mod 0x40"
  define d where "d = (c div 0x40) mod 0x40"
  define r where "r = c mod 0x40"
  have "c div 0x40 div 0x40 = c div 0x1000"
    by (simp add: div_mult2_eq [symmetric])
  then have c1: "c div 0x40 = (c div 0x1000) * 0x40 + d"
    unfolding d_def using div_mult_mod_eq [of "c div 0x40" "0x40"] by simp
  have "c div 0x1000 div 0x40 = c div 0x40000"
    by (simp add: div_mult2_eq [symmetric])
  then have c2: "c div 0x1000 = a * 0x40 + b"
    unfolding a_def b_def using div_mult_mod_eq [of "c div 0x1000" "0x40"] by simp
  have c: "c = a * 0x40000 + b * 0x1000 + d * 0x40 + r"
    unfolding r_def using div_mult_mod_eq [of c "0x40"] c1 c2 by simp
  have r: "r < 0x40" and d: "d < 0x40" and b: "b < 0x40"
    by (simp_all add: b_def d_def r_def)
  have a: "a < 5" using assms(2) by (simp add: a_def less_mult_imp_div_less)
  have lo: "0x10 \<le> b" if "a = 0" using that assms(1) c r d by simp
  have hi: "b < 0x10" if "a = 4" using that assms(2) c r d by simp
  have enc: "utf8_encode_cp c = [0xF0 + a, 0x80 + b, 0x80 + d, 0x80 + r]"
    using assms by (simp add: utf8_encode_cp_def a_def b_def d_def r_def)
  show ?thesis
    unfolding enc using a b d r lo hi c by (auto simp: utf8_next_def is_continuation_def)
qed

lemma utf8_next_encode:
  assumes "c < 0x110000" and "\<not> is_surrogate c"
  shows "utf8_next (utf8_encode_cp c @ rest) = (Some c, length (utf8_encode_cp c))"
proof -
  consider "c < 0x80" | "0x80 \<le> c" "c < 0x800" | "0x800 \<le> c" "c < 0x10000" | "0x10000 \<le> c"
    by linarith
  then show ?thesis
    using assms utf8_next_encode_1 utf8_next_encode_2 utf8_next_encode_3 utf8_next_encode_4
    by cases blast+
qed

lemma utf8_decode_encode:
  "valid_str t \<Longrightarrow> \<not> has_surrogate t \<Longrightarrow> utf8_decode errors (utf8_bytes t) = Inr t"
proof (induction t)
  case Nil
  then show ?case by (simp add: utf8_bytes_def utf8_decode.simps [of errors "[]"])
next
  case (Cons c t)
  then have c: "c < 0x110000" "\<not> is_surrogate c" and t: "valid_str t" "\<not> has_surrogate t"
    by (simp_all add: valid_str_def has_surrogate_def)
  have bytes: "utf8_bytes (c # t) = utf8_encode_cp c @ utf8_bytes t"
    by (simp add: utf8_bytes_def)
  have nx: "utf8_next (utf8_bytes (c # t)) = (Some c, length (utf8_encode_cp c))"
    unfolding bytes using c by (rule utf8_next_encode)
  have ne: "utf8_bytes (c # t) \<noteq> []"
    unfolding bytes by (simp add: utf8_encode_cp_nonempty)
  have dr: "drop (length (utf8_encode_cp c)) (utf8_bytes (c # t)) = utf8_bytes t"
    unfolding bytes by simp
  show ?case
    using ne nx dr Cons.IH [OF t]
    by (simp add: utf8_decode.simps [of errors "utf8_bytes (c # t)"])
qed

lemma utf8_bytes_valid: "valid_str t \<Longrightarrow> valid_bytes (utf8_bytes t)"
  using utf8_encode_cp_bytes by (auto simp: valid_str_def valid_bytes_def utf8_bytes_def)

subsection \<open>The merge engine: decoding what was encoded\<close>

lemma concat_merge_at: "concat (merge_at i parts) = concat parts"
  by (induction i parts rule: merge_at.induct) auto

lemma concat_bpe_merge: "concat (bpe_merge ranks parts) = concat parts"
proof (induction ranks parts rule: bpe_merge.induct)
  case (1 ranks parts)
  show ?case
  proof (cases "lowest_pair (pair_ranks ranks parts)")
    case None
    then show ?thesis by (simp add: bpe_merge.simps [of ranks parts])
  next
    case (Some vi)
    obtain v i where vi: "vi = (v, i)" by (cases vi)
    from "1.IH" [OF Some vi [symmetric]] Some vi show ?thesis
      by (simp add: bpe_merge.simps [of ranks parts] concat_merge_at)
  qed
qed

lemma merge_at_ranked:
  "\<forall>g \<in> set parts. map_of ranks g \<noteq> None \<Longrightarrow> i < length (pair_ranks ranks parts)
   \<Longrightarrow> pair_ranks ranks parts ! i = Some v
   \<Longrightarrow> \<forall>g \<in> set (merge_at i parts). map_of ranks g \<noteq> None"
proof (induction ranks parts arbitrary: i rule: pair_ranks.induct)
  case (1 ranks a b rest)
  show ?case
  proof (cases i)
    case 0
    with "1.prems" show ?thesis by auto
  next
    case (Suc j)
    with "1.prems" have "\<forall>g \<in> set (merge_at j (b # rest)). map_of ranks g \<noteq> None"
      by (intro "1.IH") auto
    with Suc "1.prems" show ?thesis by simp
  qed
qed simp_all

lemma bpe_merge_ranked:
  "\<forall>g \<in> set parts. map_of ranks g \<noteq> None
   \<Longrightarrow> \<forall>g \<in> set (bpe_merge ranks parts). map_of ranks g \<noteq> None"
proof (induction ranks parts rule: bpe_merge.induct)
  case (1 ranks parts)
  show ?case
  proof (cases "lowest_pair (pair_ranks ranks parts)")
    case None
    with "1.prems" show ?thesis by (simp add: bpe_merge.simps [of ranks parts])
  next
    case (Some vi)
    obtain v i where vi: "vi = (v, i)" by (cases vi)
    from lowest_pair_index [of "pair_ranks ranks parts" v i] Some vi
    have "i < length (pair_ranks ranks parts)" "pair_ranks ranks parts ! i = Some v"
      by simp_all
    with "1.prems" have "\<forall>g \<in> set (merge_at i parts). map_of ranks g \<noteq> None"
      by (rule merge_at_ranked)
    from "1.IH" [OF Some vi [symmetric] this] Some vi show ?thesis
      by (simp add: bpe_merge.simps [of ranks parts])
  qed
qed

lemma find_rank:
  "distinct (map snd ranks) \<Longrightarrow> map_of ranks g = Some r
   \<Longrightarrow> find (\<lambda>(b, r'). r' = r) ranks = Some (g, r)"
proof (induction ranks)
  case Nil
  then show ?case by simp
next
  case (Cons p ranks)
  obtain b0 r0 where p: "p = (b0, r0)" by (cases p)
  show ?case
  proof (cases "r0 = r")
    case True
    have "b0 = g"
    proof (rule ccontr)
      assume "b0 \<noteq> g"
      with Cons.prems(2) p have "map_of ranks g = Some r" by simp
      then have "(g, r) \<in> set ranks" by (rule map_of_SomeD)
      then have "r \<in> snd ` set ranks" by force
      with Cons.prems(1) p True show False by simp
    qed
    with p True show ?thesis by simp
  next
    case False
    with Cons.prems(2) p have "map_of ranks g = Some r" by (auto split: if_splits)
    with Cons.IH Cons.prems(1) have "find (\<lambda>(b, r'). r' = r) ranks = Some (g, r)" by simp
    with p False show ?thesis by simp
  qed
qed

lemma decode_rank:
  "distinct (map snd ranks) \<Longrightarrow> map_of ranks g = Some r
   \<Longrightarrow> bpe_decode_single_token_bytes ranks specials r = Inr g"
  by (simp add: bpe_decode_single_token_bytes_def find_rank)

lemma encode_decode_groups:
  assumes "distinct (map snd ranks)"
  shows "\<forall>g \<in> set parts. map_of ranks g \<noteq> None \<Longrightarrow>
     \<exists>rs. map_result (\<lambda>g. case map_of ranks g of None \<Rightarrow> Inl KeyError | Some r \<Rightarrow> Inr r) parts
            = Inr rs
       \<and> map_result (bpe_decode_single_token_bytes ranks specials) rs = Inr parts"
proof (induction parts)
  case Nil
  then show ?case by simp
next
  case (Cons g parts)
  then obtain r where r: "map_of ranks g = Some r" by auto
  from Cons obtain rs where
    "map_result (\<lambda>g. case map_of ranks g of None \<Rightarrow> Inl KeyError | Some r \<Rightarrow> Inr r) parts
       = Inr rs"
    and "map_result (bpe_decode_single_token_bytes ranks specials) rs = Inr parts"
    by auto
  with r decode_rank [OF assms r, of specials] show ?case by simp
qed

lemma byte_pair_encode_decode:
  assumes "well_formed_ranks ranks" and "valid_bytes bs"
  shows "\<exists>toks. byte_pair_encode ranks bs = Inr toks
     \<and> map_result (bpe_decode_single_token_bytes ranks specials) toks
         = Inr (bpe_merge ranks (map (\<lambda>b. [b]) bs))"
proof -
  have "\<forall>g \<in> set (map (\<lambda>b. [b]) bs). map_of ranks g \<noteq> None"
    using assms by (auto simp: well_formed_ranks_def valid_bytes_def)
  then have "\<forall>g \<in> set (bpe_merge ranks (map (\<lambda>b. [b]) bs)). map_of ranks g \<noteq> None"
    by (rule bpe_merge_ranked)
  from encode_decode_groups [OF _ this, of specials] assms(1) show ?thesis
    by (simp add: byte_pair_encode_def well_formed_ranks_def)
qed

lemma concat_singletons: "concat (map (\<lambda>b. [b]) bs) = bs"
  by (induction bs) auto

lemma map_result_append:
  "map_result f xs = Inr ys \<Longrightarrow> map_result f xs' = Inr ys'
   \<Longrightarrow> map_result f (xs @ xs') = Inr (ys @ ys')"
  by (induction xs arbitrary: ys) (auto split: sum.splits)

lemma bpe_decode_bytes_append:
  "bpe_decode_bytes ranks specials ts = Inr bs \<Longrightarrow> bpe_decode_bytes ranks specials ts' = Inr bs'
   \<Longrightarrow> bpe_decode_bytes ranks specials (ts @ ts') = Inr (bs @ bs')"
proof -
  assume a: "bpe_decode_bytes ranks specials ts = Inr bs"
    and b: "bpe_decode_bytes ranks specials ts' = Inr bs'"
  from a obtain bss where
    1: "map_result (bpe_decode_single_token_bytes ranks specials) ts = Inr bss"
    and bs: "bs = concat bss"
    by (auto simp: bpe_decode_bytes_def split: sum.splits)
  from b obtain bss' where
    2: "map_result (bpe_decode_single_token_bytes ranks specials) ts' = Inr bss'"
    and bs': "bs' = concat bss'"
    by (auto simp: bpe_decode_bytes_def split: sum.splits)
  from map_result_append [OF 1 2] bs bs' show ?thesis
    by (simp add: bpe_decode_bytes_def)
qed

lemma byte_pair_encode_roundtrip:
  assumes "well_formed_ranks ranks" and "valid_bytes bs"
  shows "\<exists>toks. byte_pair_encode ranks bs = Inr toks
     \<and> bpe_decode_bytes ranks specials toks = Inr bs"
proof -
  from byte_pair_encode_decode [OF assms, of specials] obtain toks where
    "byte_pair_encode ranks bs = Inr toks"
    and "map_result (bpe_decode_single_token_bytes ranks specials) toks
         = Inr (bpe_merge ranks (map (\<lambda>b. [b]) bs))"
    by blast
  then show ?thesis
    by (simp add: bpe_decode_bytes_def concat_bpe_merge concat_singletons)
qed

lemma pieces_roundtrip:
  assumes "well_formed_ranks ranks"
  shows "\<forall>p \<in> set pieces. valid_str p \<Longrightarrow>
     \<exists>tss. map_result (\<lambda>piece. byte_pair_encode ranks (utf8_bytes piece)) pieces = Inr tss
       \<and> bpe_decode_bytes ranks specials (concat tss) = Inr (utf8_bytes (concat pieces))"
proof (induction pieces)
  case Nil
  then show ?case by (simp add: bpe_decode_bytes_def utf8_bytes_def)
next
  case (Cons p pieces)
  then have "valid_bytes (utf8_bytes p)" by (simp add: utf8_bytes_valid)
  from byte_pair_encode_roundtrip [OF assms this, of specials] obtain toks where
    t1: "byte_pair_encode ranks (utf8_bytes p) = Inr toks"
    and t2: "bpe_decode_bytes ranks specials toks = Inr (utf8_bytes p)"
    by blast
  from Cons obtain tss where
    r1: "map_result (\<lambda>piece. byte_pair_encode ranks (utf8_bytes piece)) pieces = Inr tss"
    and r2: "bpe_decode_bytes ranks specials (concat tss) = Inr (utf8_bytes (concat pieces))"
    by auto
  have "utf8_bytes (concat (p # pieces)) = utf8_bytes p @ utf8_bytes (concat pieces)"
    by (simp add: utf8_bytes_def)
  with t1 r1 bpe_decode_bytes_append [OF t2 r2] show ?case by simp
qed

lemma valid_str_pieces: "valid_str (concat pieces) \<Longrightarrow> \<forall>p \<in> set pieces. valid_str p"
  by (auto simp: valid_str_def)

lemma bpe_encode_ordinary_roundtrip:
  assumes "well_formed_ranks ranks" and "concat (rx pat t) = t" and "valid_str t"
  shows "\<exists>toks. bpe_encode_ordinary rx ranks pat t = Inr toks
     \<and> bpe_decode_bytes ranks specials toks = Inr (utf8_bytes t)"
proof -
  have "\<forall>p \<in> set (rx pat t). valid_str p"
    using assms(2,3) valid_str_pieces [of "rx pat t"] by simp
  from pieces_roundtrip [OF assms(1) this, of specials] assms(2) show ?thesis
    by (auto simp: bpe_encode_ordinary_def)
qed

subsection \<open>The scan and the special tokens of the merge engine\<close>

lemma find_Some_set: "find P xs = Some x \<Longrightarrow> P x \<and> x \<in> set xs"
  by (induction xs) (auto split: if_splits)

lemma special_token_search_None:
  "toks \<noteq> [] \<Longrightarrow>
   (special_token_search toks t = None) = (\<forall>tok \<in> set toks. \<not> sublist tok t)"
proof (induction t)
  case Nil
  then show ?case by (auto simp: special_token_match_def find_None_iff)
next
  case (Cons c cs)
  then show ?case
    by (auto simp: special_token_match_def find_None_iff sublist_Cons_right
        split: option.splits dest: find_Some_set)
qed

lemma special_token_search_Some:
  "toks \<noteq> [] \<Longrightarrow> special_token_search toks t = Some m \<Longrightarrow> m \<in> set toks \<and> sublist m t"
proof (induction t)
  case Nil
  then show ?case by (auto simp: special_token_match_def dest: find_Some_set)
next
  case (Cons c cs)
  show ?case
  proof (cases "special_token_match toks (c # cs)")
    case None
    with Cons show ?thesis by (auto simp: sublist_Cons_right)
  next
    case (Some m')
    with Cons.prems have "m' = m" by simp
    with Some Cons.prems(1) have "m \<in> set toks" "prefix m (c # cs)"
      by (auto simp: special_token_match_def dest: find_Some_set)
    then show ?thesis by (auto simp: sublist_Cons_right)
  qed
qed

lemma find_single_candidate:
  "cands \<noteq> [] \<Longrightarrow> set cands \<subseteq> {s} \<Longrightarrow> find P cands = (if P s then Some s else None)"
proof (induction cands)
  case Nil
  then show ?case by simp
next
  case (Cons x cands)
  then have x: "x = s" by simp
  show ?case
  proof (cases "cands = []")
    case True
    with x show ?thesis by simp
  next
    case False
    with Cons x show ?thesis by simp
  qed
qed

lemma next_special_leftmost:
  assumes "cands \<noteq> []" and "set cands \<subseteq> {s}" and "s \<noteq> []"
  shows "\<not> sublist s (pre @ butlast s) \<Longrightarrow> next_special cands (pre @ s @ post) = Some (pre, s, post)"
proof (induction pre)
  case Nil
  from assms(3) obtain c cs where s: "s = c # cs" by (cases s) auto
  have "find (\<lambda>lit. prefix lit (s @ post)) cands = Some s"
    using find_single_candidate [OF assms(1,2)] by simp
  then show ?case by (simp add: s)
next
  case (Cons c pre)
  have not_here: "\<not> prefix s ((c # pre) @ s @ post)"
  proof
    assume p: "prefix s ((c # pre) @ s @ post)"
    have "s = butlast s @ [last s]" using assms(3) by simp
    then have "(c # pre) @ s @ post = ((c # pre) @ butlast s) @ (last s # post)"
      by (metis append.assoc append_Cons append_Nil)
    then have q: "prefix ((c # pre) @ butlast s) ((c # pre) @ s @ post)"
      by (metis prefixI)
    have "length s \<le> length ((c # pre) @ butlast s)" by simp
    from prefix_length_prefix [OF p q this] have "sublist s ((c # pre) @ butlast s)"
      by (rule prefix_imp_sublist)
    with Cons.prems show False by simp
  qed
  then have "find (\<lambda>lit. prefix lit (c # pre @ s @ post)) cands = None"
    using find_single_candidate [OF assms(1,2)] by simp
  moreover have "\<not> sublist s (pre @ butlast s)"
    using Cons.prems by (simp add: sublist_Cons_right)
  then have "next_special cands (pre @ s @ post) = Some (pre, s, post)" by (rule Cons.IH)
  ultimately show ?case by simp
qed

lemma has_surrogate_sublist: "sublist s t \<Longrightarrow> has_surrogate s \<Longrightarrow> has_surrogate t"
  by (auto simp: has_surrogate_def sublist_def)

lemma valid_str_append: "valid_str (a @ b) = (valid_str a \<and> valid_str b)"
  by (auto simp: valid_str_def)

lemma bpe_encode_ordinary_succeeds:
  assumes "well_formed_ranks ranks" and "\<forall>t'. concat (rx pat t') = t'" and "valid_str t"
  shows "\<exists>toks. bpe_encode_ordinary rx ranks pat t = Inr toks"
proof -
  have "concat (rx pat t) = t" using assms(2) by simp
  from bpe_encode_ordinary_roundtrip [of ranks rx pat t "[]", OF assms(1) this assms(3)]
  show ?thesis by blast
qed

lemma bpe_encode_succeeds:
  "well_formed_ranks ranks \<Longrightarrow> \<forall>t'. concat (rx pat t') = t' \<Longrightarrow> valid_str t
   \<Longrightarrow> \<exists>toks. bpe_encode rx ranks specials pat allowed t = Inr toks"
proof (induction rx ranks specials pat allowed t rule: bpe_encode.induct)
  case (1 rx ranks specials pat allowed t)
  let ?cands = "filter (\<lambda>s. s \<in> set allowed \<and> s \<noteq> []) (map fst specials)"
  show ?case
  proof (cases "next_special ?cands t")
    case None
    with bpe_encode_ordinary_succeeds [of ranks rx pat t, OF "1.prems"] show ?thesis
      by (simp add: bpe_encode.simps [of rx ranks specials pat allowed t])
  next
    case (Some trip)
    note ns = this
    obtain pre lit post where trip: "trip = (pre, lit, post)" by (cases trip)
    from next_special_split [of ?cands t pre lit post] ns trip
    have t: "t = pre @ lit @ post" and lit: "lit \<in> set ?cands" by simp_all
    from t "1.prems"(3) have vpre: "valid_str pre" and vpost: "valid_str post"
      by (simp_all add: valid_str_append)
    from bpe_encode_ordinary_succeeds [of ranks rx pat pre, OF "1.prems"(1,2) vpre]
    obtain toks_pre where
      pre: "bpe_encode_ordinary rx ranks pat pre = Inr toks_pre" by blast
    from lit have "lit \<in> fst ` set specials" by auto
    then obtain sid where sid: "map_of specials lit = Some sid"
      by (metis map_of_eq_None_iff not_Some_eq)
    from "1.IH" [OF ns trip [symmetric] refl pre sid "1.prems"(1,2) vpost] obtain toks_post where
      "bpe_encode rx ranks specials pat allowed post = Inr toks_post" by blast
    with ns trip pre sid show ?thesis
      by (simp add: bpe_encode.simps [of rx ranks specials pat allowed t])
  qed
qed

lemma disallowed_scan_default:
  assumes "s \<in> set specials" and "sublist s t"
  shows "\<exists>m. disallowed_scan specials (Only []) AllSpecial t = Some m
           \<and> m \<in> set specials \<and> sublist m t"
proof -
  have d: "resolve_disallowed specials (Only []) AllSpecial = specials"
    by (simp add: resolve_disallowed_def resolve_allowed_def set_minus_def)
  have ne: "specials \<noteq> []" using assms(1) by auto
  have "special_token_search specials t \<noteq> None"
    using special_token_search_None [OF ne, of t] assms by blast
  then obtain m where m: "special_token_search specials t = Some m" by blast
  from special_token_search_Some [OF ne m] m d ne show ?thesis
    by (simp add: disallowed_scan_def)
qed

lemma disallowed_scan_only_allowed:
  assumes "\<forall>s' \<in> set specials. sublist s' t \<longrightarrow> s' = s"
  shows "disallowed_scan specials (Only [s]) AllSpecial t = None"
proof -
  have d: "resolve_disallowed specials (Only [s]) AllSpecial = filter (\<lambda>x. x \<noteq> s) specials"
    by (simp add: resolve_disallowed_def resolve_allowed_def set_minus_def)
  show ?thesis
  proof (cases "filter (\<lambda>x. x \<noteq> s) specials = []")
    case True
    with d show ?thesis by (simp add: disallowed_scan_def)
  next
    case False
    have "\<forall>tok \<in> set (filter (\<lambda>x. x \<noteq> s) specials). \<not> sublist tok t"
      using assms by auto
    with special_token_search_None [OF False, of t] d False show ?thesis
      by (simp add: disallowed_scan_def)
  qed
qed

lemma bpe_encode_special_at:
  assumes wf: "well_formed_ranks ranks" and cover: "\<forall>t'. concat (rx pat t') = t'"
    and valid: "valid_str (pre @ s @ post)"
    and sid: "map_of specials s = Some sid" and ne: "s \<noteq> []"
    and left: "\<not> sublist s (pre @ butlast s)"
  shows "\<exists>toks_pre toks_post.
           bpe_encode rx ranks specials pat [s] (pre @ s @ post)
             = Inr (toks_pre @ [sid] @ toks_post)
           \<and> bpe_encode_ordinary rx ranks pat pre = Inr toks_pre
           \<and> bpe_encode rx ranks specials pat [s] post = Inr toks_post"
proof -
  let ?cands = "filter (\<lambda>x. x \<in> set [s] \<and> x \<noteq> []) (map fst specials)"
  from sid have "s \<in> fst ` set specials" by (metis map_of_eq_None_iff option.distinct(1))
  then have c1: "?cands \<noteq> []" using ne by (auto simp: filter_empty_conv)
  have c2: "set ?cands \<subseteq> {s}" by auto
  have ns: "next_special ?cands (pre @ s @ post) = Some (pre, s, post)"
    using next_special_leftmost [OF c1 c2 ne left] .
  from valid have vpre: "valid_str pre" and vpost: "valid_str post"
    by (simp_all add: valid_str_append)
  from bpe_encode_ordinary_succeeds [of ranks rx pat pre, OF wf cover vpre] obtain toks_pre where
    pre: "bpe_encode_ordinary rx ranks pat pre = Inr toks_pre" by blast
  from bpe_encode_succeeds [of ranks rx pat post specials "[s]", OF wf cover vpost]
  obtain toks_post where
    post: "bpe_encode rx ranks specials pat [s] post = Inr toks_post" by blast
  have "bpe_encode rx ranks specials pat [s] (pre @ s @ post)
        = Inr (toks_pre @ [sid] @ toks_post)"
    using ns pre sid post
    by (simp add: bpe_encode.simps [of rx ranks specials pat "[s]" "pre @ s @ post"])
  with pre post show ?thesis by blast
qed

subsection \<open>The small vocabulary\<close>

lemma map_of_single_bytes:
  "map_of (map (\<lambda>b. ([b], f b)) bs) g =
     (case g of [b] \<Rightarrow> if b \<in> set bs then Some (f b) else None | _ \<Rightarrow> None)"
  by (induction bs) (auto split: list.splits)

lemma example_ranks_lookup:
  "map_of example_ranks g =
     (case g of
        [b] \<Rightarrow> if b < 256 then Some (int b) else None
      | [a, b] \<Rightarrow> if a = 97 \<and> b = 98 then Some 256 else None
      | _ \<Rightarrow> None)"
  unfolding example_ranks_def map_of_append map_add_def map_of_single_bytes
  by (auto split: list.splits)

lemma find_append_list:
  "find P (xs @ ys) = (case find P xs of None \<Rightarrow> find P ys | Some x \<Rightarrow> Some x)"
  by (induction xs) auto

lemma find_single_bytes:
  "find (\<lambda>(b, r). r = tok) (map (\<lambda>b. ([b], int b)) [0..<n]) =
     (if 0 \<le> tok \<and> tok < int n then Some ([nat tok], tok) else None)"
  by (induction n) (auto simp: find_append_list split: option.splits)

lemma example_ranks_find:
  "find (\<lambda>(b, r). r = tok) example_ranks =
     (if 0 \<le> tok \<and> tok < 256 then Some ([nat tok], tok)
      else if tok = 256 then Some ([97, 98], 256) else None)"
  unfolding example_ranks_def by (simp add: find_append_list find_single_bytes)

lemma example_ranks_values: "map snd example_ranks = map int [0..<257]"
proof -
  have "[0..<257] = [0..<256] @ [256]"
    using upt_Suc_append [of 0 256] by simp
  then show ?thesis by (simp add: example_ranks_def comp_def)
qed

lemma example_ranks_well_formed: "well_formed_ranks example_ranks"
  unfolding well_formed_ranks_def
  by (simp add: example_ranks_values example_ranks_lookup distinct_map inj_on_def)

lemmas example_eval =
  example_encoding_def merge_engine_def example_rx_def example_specials_def str_def
  has_surrogate_def is_surrogate_def bpe_encode.simps bpe_encode_ordinary_def
  utf8_bytes_def utf8_encode_cp_def byte_pair_encode_def bpe_merge.simps
  example_ranks_lookup example_ranks_find special_tokens_set_def set_minus_def
  py_set_def py_frozenset_def special_token_match_def raise_disallowed_special_token_def
  bpe_decode_bytes_def bpe_decode_single_token_bytes_def

lemma example_surrogate_fallback: "surrogate_fallback [0x61, 0xD800] = [0x61, 0xFFFD]"
  by (simp add: surrogate_fallback_def utf16_decode_replace_def utf16_encode_surrogatepass_def
      utf16_units_def is_surrogate_def)

section \<open>Construction of an encoding\<close>

text \<open>
  C9 (amended). For a vocabulary with \<open>M \<ge> 1\<close> mergeable ranks whose ranks are exactly
  \<open>[0, M)\<close> and \<open>S\<close> special tokens whose ids are exactly \<open>[M, M + S)\<close>, construction
  without an explicit size sets \<open>max_token_value\<close> to \<open>max (M - 1) (M + S - 1)\<close>
  (it fails only if the native constructor fails); with a non-zero explicit size \<open>n\<close>
  the two assertions pass exactly when \<open>M + S = n\<close>, and then \<open>max_token_value = n - 1\<close>.
\<close>

theorem Encoding_init_dense:
  assumes "ranks \<noteq> []"
    and "set (map snd ranks) = {0..<M}"
    and "set (map snd specials) = {M..<M + S}"
    and "M = int (length ranks)" and "S = int (length specials)"
  shows "Encoding_init new_core nm pat ranks specials None =
           (case new_core ranks specials pat of
              Inl err \<Rightarrow> Inl err
            | Inr core \<Rightarrow>
                Inr \<lparr>name = nm, pat_str = pat, mergeable_ranks = ranks,
                     special_tokens = specials,
                     max_token_value = max (M - 1) (M + S - 1), core_bpe = core\<rparr>)
         \<and> (\<forall>n. n \<noteq> 0 \<longrightarrow>
               Encoding_init new_core nm pat ranks specials (Some n) =
                 (if M + S = n \<and> max (M - 1) (M + S - 1) = n - 1
                  then Encoding_init new_core nm pat ranks specials None
                  else Inl AssertionError))
         \<and> (\<forall>n. M + S = n \<longrightarrow> max (M - 1) (M + S - 1) = n - 1)"
proof -
  have m: "py_max (map snd ranks) = Inr (M - 1)"
    and mtv: "max (M - 1) (py_max_default (map snd specials) 0) = max (M - 1) (M + S - 1)"
    using max_token_value_dense [of ranks specials] assms by simp_all
  have S: "0 \<le> S" using assms(5) by simp
  then have mx: "max (M - 1) (M + S - 1) = M + S - 1" by simp
  have len: "int (length ranks) + int (length specials) = M + S"
    using assms(4,5) by simp
  show ?thesis
    by (auto simp: Encoding_init_def m mtv mx len Let_def split: sum.splits)
qed

theorem Encoding_init_dense_witness:
  "[([97], 0), ([98], 1), ([97, 98], 2)] \<noteq> ([] :: (bytes \<times> int) list)
   \<and> set (map snd [([97], 0), ([98], 1), ([97, 98 :: nat], 2 :: int)]) = {0..<3}
   \<and> set (map snd [(str ''<a>'', 3 :: int)]) = {3..<3 + 1}
   \<and> map_sum id max_token_value
         (Encoding_init example_new_core ''n'' ''p'' [([97], 0), ([98], 1), ([97, 98], 2)]
            [(str ''<a>'', 3)] None) = Inr 3
   \<and> map_sum id max_token_value
         (Encoding_init example_new_core ''n'' ''p'' [([97], 0), ([98], 1), ([97, 98], 2)]
            [(str ''<a>'', 3)] (Some 4)) = Inr 3
   \<and> Encoding_init example_new_core ''n'' ''p'' [([97], 0), ([98], 1), ([97, 98], 2)]
            [(str ''<a>'', 3)] (Some 5) = Inl AssertionError"
proof -
  have h1: "[([97], 0), ([98], 1), ([97, 98], 2)] \<noteq> ([] :: (bytes \<times> int) list)" by simp
  have h2: "set (map snd [([97], 0), ([98], 1), ([97, 98 :: nat], 2 :: int)]) = {0..<3}"
    by auto
  have h3: "set (map snd [(str ''<a>'', 3 :: int)]) = {3..<3 + 1}" by auto
  have h4: "(3 :: int) = int (length [([97], 0), ([98], 1), ([97, 98 :: nat], 2 :: int)])"
    by simp
  have h5: "(1 :: int) = int (length [(str ''<a>'', 3 :: int)])" by simp
  show ?thesis
    using h1 h2 h3
      Encoding_init_dense [OF h1 h2 h3 h4 h5, of example_new_core "''n''" "''p''"]
    by (simp add: example_new_core_def)
qed

text \<open>
  C9 as stated fails at two inputs: an empty rank table (\<open>M = 0\<close>) makes the
  constructor raise \<open>ValueError\<close> instead of setting \<open>max_token_value\<close>, and an
  explicit size of \<open>0\<close> is accepted although \<open>M + S = 1\<close>.
\<close>

theorem Encoding_init_counterexample:
  "Encoding_init example_new_core ''n'' ''p'' [] [] None = Inl ValueError
   \<and> map_sum id max_token_value
         (Encoding_init example_new_core ''n'' ''p'' [([97], 0)] [] (Some 0)) = Inr 0"
  by (simp add: Encoding_init_def py_max_def py_max_default_def example_new_core_def)

section \<open>The end-of-text token\<close>

text \<open>
  C10. \<open>eot_token\<close> returns the id stored under the empty string in the special-token
  table, and fails with a key-lookup error when the table has no such key.
\<close>

theorem eot_token_empty_key:
  "(\<forall>v. map_of (special_tokens e) [] = Some v \<longrightarrow> eot_token e = Inr v)
   \<and> ([] \<notin> set (special_tokens_set e) \<longrightarrow> eot_token e = Inl KeyError)"
  by (auto simp: eot_token_def special_tokens_set_def map_of_eq_None_iff [symmetric])

theorem eot_token_empty_key_witness:
  "map_of (special_tokens (example_encoding\<lparr>special_tokens := [([], 100257)]\<rparr>)) []
     = Some 100257
   \<and> eot_token (example_encoding\<lparr>special_tokens := [([], 100257)]\<rparr>) = Inr 100257
   \<and> [] \<notin> set (special_tokens_set example_encoding)
   \<and> eot_token example_encoding = Inl KeyError"
  using eot_token_empty_key [of "example_encoding\<lparr>special_tokens := [([], 100257)]\<rparr>"]
    eot_token_empty_key [of example_encoding]
  by (simp add: example_encoding_def special_tokens_set_def example_specials_def str_def)

section \<open>The special-token scan\<close>

text \<open>
  C6. The claim: \<open>encode_with_unstable\<close> runs the same scan as \<open>encode\<close>, also under
  the default \<open>disallowed_special="all"\<close>. What the code does: with an explicit
  collection of disallowed tokens \<open>encode_with_unstable\<close> is the scan of the spec
  followed by the call of the native engine, as \<open>encode\<close> is for every argument; with
  \<open>disallowed_special="all"\<close> it calls the engine when the resolved disallowed set is
  empty and raises \<open>TypeError\<close> otherwise, whatever the text, where \<open>encode\<close> scans.
\<close>

theorem encode_with_unstable_scan_or_type_error:
  "encode_with_unstable e t a (Only d) =
     (case disallowed_scan (special_tokens_set e) a (Only d) t of
        Some m \<Rightarrow> Inl (DisallowedSpecialToken m)
      | None \<Rightarrow>
          core_encode_with_unstable (core_bpe e) t
            (case a of AllSpecial \<Rightarrow> special_tokens_set e | Only x \<Rightarrow> py_set x))
   \<and> encode_with_unstable e t a AllSpecial =
     (if resolve_disallowed (special_tokens_set e) a AllSpecial = []
      then core_encode_with_unstable (core_bpe e) t
             (case a of AllSpecial \<Rightarrow> special_tokens_set e | Only x \<Rightarrow> py_set x)
      else Inl TypeError)
   \<and> encode e t a d' =
     (case disallowed_scan (special_tokens_set e) a d' t of
        Some m \<Rightarrow> Inl (DisallowedSpecialToken m)
      | None \<Rightarrow>
          (if core_encode (core_bpe e) t (py_set (resolve_allowed (special_tokens_set e) a))
              = Inl UnicodeEncodeError
           then core_encode (core_bpe e) (surrogate_fallback t)
                  (py_set (resolve_allowed (special_tokens_set e) a))
           else core_encode (core_bpe e) t
                  (py_set (resolve_allowed (special_tokens_set e) a))))"
  using encode_with_unstable_scan [of e t a d] encode_with_unstable_all [of e t a]
    encode_scan [of e t a d'] by simp

text \<open>
  The failing input of C6: the text \<open>hello\<close> with the default arguments, on a vocabulary
  with two special tokens. The scan finds nothing and \<open>encode\<close> returns tokens;
  \<open>encode_with_unstable\<close> raises \<open>TypeError\<close>. With the same tokens given as an
  explicit collection both run the scan.
\<close>

theorem encode_with_unstable_scan_or_type_error_witness:
  "disallowed_scan (special_tokens_set example_encoding) (Only []) AllSpecial (str ''hello'')
     = None
   \<and> encode example_encoding (str ''hello'') (Only []) AllSpecial
     = Inr [104, 101, 108, 108, 111]
   \<and> encode_with_unstable example_encoding (str ''hello'') (Only []) AllSpecial
     = Inl TypeError
   \<and> encode_with_unstable example_encoding (str ''hello'') (Only [])
       (Only [str ''<a>'', str ''<b>'']) = Inr ([], [])
   \<and> encode_with_unstable example_encoding (str ''x<b>'') (Only [])
       (Only [str ''<a>'', str ''<b>'']) = Inl (DisallowedSpecialToken (str ''<b>''))
   \<and> encode example_encoding (str ''x<b>'') (Only []) (Only [str ''<a>'', str ''<b>''])
     = Inl (DisallowedSpecialToken (str ''<b>''))"
  using encode_with_unstable_scan_or_type_error
      [of example_encoding "str ''hello''" "Only []" "[str ''<a>'', str ''<b>'']" AllSpecial]
    encode_with_unstable_scan_or_type_error
      [of example_encoding "str ''x<b>''" "Only []" "[str ''<a>'', str ''<b>'']"
         "Only [str ''<a>'', str ''<b>'']"]
  by (simp add: disallowed_scan_def resolve_allowed_def resolve_disallowed_def example_eval
      example_unstable_def)

section \<open>Batch encoding\<close>

text \<open>
  C4 (amended). For a positive number of worker threads, \<open>encode_batch\<close> is
  \<open>encode\<close> with the same special-token arguments applied to each text in input
  order, whatever the number of threads: it returns exactly when \<open>encode\<close> returns on
  every text, and then its \<open>i\<close>-th result is the result of \<open>encode\<close> on the \<open>i\<close>-th
  text; otherwise it raises the first error in input order.
\<close>

theorem encode_batch_elementwise:
  assumes "0 < num_threads"
  shows "encode_batch e texts num_threads a d = map_result (\<lambda>t. encode e t a d) texts
    \<and> (\<forall>results. encode_batch e texts num_threads a d = Inr results \<longrightarrow>
          length results = length texts
          \<and> (\<forall>i < length texts. encode e (texts ! i) a d = Inr (results ! i)))
    \<and> ((\<forall>t \<in> set texts. \<exists>r. encode e t a d = Inr r) \<longrightarrow>
          (\<exists>results. encode_batch e texts num_threads a d = Inr results))"
proof -
  have eq: "encode_batch e texts num_threads a d = map_result (\<lambda>t. encode e t a d) texts"
    using assms by (simp add: encode_batch_def thread_pool_map_def Let_def encode_resolved)
  have "\<exists>results. map_result (\<lambda>t. encode e t a d) texts = Inr results"
    if "\<forall>t \<in> set texts. \<exists>r. encode e t a d = Inr r"
    using that by (intro map_result_succeeds) blast
  then show ?thesis
    using eq map_result_Inr_length [of "\<lambda>t. encode e t a d" texts]
      map_result_Inr_nth [of "\<lambda>t. encode e t a d" texts]
    by auto
qed

theorem encode_batch_elementwise_witness:
  "(0 :: int) < 8
   \<and> encode_batch example_encoding [str ''ab'', str ''c<a>''] 8 (Only [str ''<a>'']) AllSpecial
       = Inr [[256], [99, 257]]
   \<and> encode example_encoding ([str ''ab'', str ''c<a>''] ! 1) (Only [str ''<a>'']) AllSpecial
       = Inr ([[256], [99, 257]] ! 1)"
proof -
  have h: "(0 :: int) < 8" by simp
  show ?thesis
    using encode_batch_elementwise [OF h, of example_encoding "[str ''ab'', str ''c<a>'']"
        "Only [str ''<a>'']" AllSpecial]
    by (simp add: encode_def example_eval)
qed

text \<open>
  C4 as stated fails in two ways: with no worker thread the pool cannot be built and
  \<open>encode_batch\<close> raises \<open>ValueError\<close>, and a text that \<open>encode\<close> rejects makes
  the whole batch fail, also for the texts that \<open>encode\<close> accepts.
\<close>

theorem encode_batch_elementwise_counterexample:
  "encode_batch example_encoding [str ''ab''] 0 (Only []) AllSpecial = Inl ValueError
   \<and> encode example_encoding ([str ''ab''] ! 0) (Only []) AllSpecial = Inr [256]
   \<and> encode_batch example_encoding [str ''ab'', str ''<a>''] 8 (Only []) AllSpecial
       = Inl (DisallowedSpecialToken (str ''<a>''))
   \<and> encode example_encoding ([str ''ab'', str ''<a>''] ! 0) (Only []) AllSpecial = Inr [256]"
  by (simp add: encode_batch_def thread_pool_map_def encode_def example_eval)

section \<open>Chunk windows\<close>

text \<open>
  C3. For \<open>max_tokens = k > 0\<close> the windows that \<open>split_text_into_chunks\<close> slices are
  the consecutive segments of length \<open>k\<close> of the encoded token sequence (the last one
  possibly shorter, none empty); their concatenation is the token sequence; their number
  is \<open>ceil(token_count / k)\<close>, zero for no tokens; and the chunks are the decoded
  windows, one chunk per window, in order.
\<close>

theorem split_text_into_chunks_windows:
  assumes "0 < k"
  shows "\<exists>windows. token_windows tokens k = Inr windows
     \<and> concat windows = tokens
     \<and> int (length windows) = \<lceil>real (length tokens) / real_of_int k\<rceil>
     \<and> (tokens = [] \<longrightarrow> windows = [])
     \<and> (\<forall>j < length windows.
           windows ! j = take (nat k) (drop (j * nat k) tokens)
           \<and> windows ! j \<noteq> []
           \<and> int (length (windows ! j)) \<le> k
           \<and> (Suc j < length windows \<longrightarrow> int (length (windows ! j)) = k))
     \<and> (\<forall>encoding_for_model t model enc.
           encoding_for_model model = Inr enc
           \<longrightarrow> encode enc t (Only []) AllSpecial = Inr tokens
           \<longrightarrow> split_text_into_chunks encoding_for_model t k model
                 = map_result (\<lambda>w. decode enc w Replace) windows
               \<and> (\<forall>chunks. split_text_into_chunks encoding_for_model t k model = Inr chunks
                     \<longrightarrow> length chunks = length windows
                         \<and> (\<forall>j < length windows.
                               decode enc (windows ! j) Replace = Inr (chunks ! j))))"
proof -
  define n where "n = int (length tokens)"
  define starts where "starts = range_from 0 n k"
  define windows where "windows = map (\<lambda>i. py_slice tokens i (i + k)) starts"
  have tw: "token_windows tokens k = Inr windows"
    using assms by (simp add: token_windows_def py_range_def windows_def starts_def n_def)
  have cc: "concat windows = tokens"
    using concat_windows_drop [of k 0 tokens] assms
    by (simp add: windows_def starts_def n_def)
  have len: "length windows = nat (- ((- n) div k))"
    using range_from_length [of k 0 n] assms by (simp add: windows_def starts_def)
  have "(- n) div k \<le> 0"
    using assms by (simp add: n_def div_nonpos_pos_le0)
  then have "int (length windows) = - ((- n) div k)" using len by simp
  also have "\<dots> = \<lceil>of_int n / of_int k :: real\<rceil>"
    by (simp add: ceiling_divide_eq_div)
  finally have cnt: "int (length windows) = \<lceil>real (length tokens) / real_of_int k\<rceil>"
    by (simp add: n_def)
  have emp: "tokens = [] \<longrightarrow> windows = []"
    using len by (auto simp: n_def)
  have each: "windows ! j = take (nat k) (drop (j * nat k) tokens)
           \<and> windows ! j \<noteq> []
           \<and> int (length (windows ! j)) \<le> k
           \<and> (Suc j < length windows \<longrightarrow> int (length (windows ! j)) = k)"
    if j: "j < length windows" for j
  proof -
    from j have js: "j < length starts" by (simp add: windows_def)
    then have st: "starts ! j = int j * k" and lt: "int j * k < n"
      using range_from_nth [of k j 0 n] assms by (simp_all add: starts_def)
    have nn: "0 \<le> int j * k" using assms by simp
    have wj: "windows ! j = py_slice tokens (int j * k) (int j * k + k)"
      using js st by (simp add: windows_def)
    have natjk: "nat (int j * k) = j * nat k"
      using assms by (simp add: nat_mult_distrib)
    have w1: "windows ! j = take (nat k) (drop (j * nat k) tokens)"
      using py_slice_window [OF assms nn, of tokens] lt wj natjk by (simp add: n_def)
    have wl: "int (length (windows ! j)) = min k (n - int j * k)"
      using window_length [OF assms nn, of tokens] lt wj by (simp add: n_def)
    have full: "int (length (windows ! j)) = k" if "Suc j < length windows"
    proof -
      from that have "Suc j < length starts" by (simp add: windows_def)
      then have "int (Suc j) * k < n"
        using range_from_nth [of k "Suc j" 0 n] assms by (simp add: starts_def)
      then have "k < n - int j * k" by (simp add: algebra_simps)
      with wl show ?thesis by simp
    qed
    from wl lt assms have "0 < int (length (windows ! j))" by simp
    then have "windows ! j \<noteq> []" by auto
    with w1 wl full show ?thesis by simp
  qed
  have split: "split_text_into_chunks encoding_for_model t k model
                 = map_result (\<lambda>w. decode enc w Replace) windows
               \<and> (\<forall>chunks. split_text_into_chunks encoding_for_model t k model = Inr chunks
                     \<longrightarrow> length chunks = length windows
                         \<and> (\<forall>j < length windows.
                               decode enc (windows ! j) Replace = Inr (chunks ! j)))"
    if "encoding_for_model model = Inr enc" and "encode enc t (Only []) AllSpecial = Inr tokens"
    for encoding_for_model t model enc
  proof -
    have eq: "split_text_into_chunks encoding_for_model t k model
                 = map_result (\<lambda>w. decode enc w Replace) windows"
      using that tw by (simp add: split_text_into_chunks_def)
    show ?thesis
      using eq map_result_Inr_length [of "\<lambda>w. decode enc w Replace" windows]
        map_result_Inr_nth [of "\<lambda>w. decode enc w Replace" windows]
      by auto
  qed
  show ?thesis
    using tw cc cnt emp each split by blast
qed

theorem split_text_into_chunks_windows_witness:
  "(0 :: int) < 2
   \<and> token_windows [1, 2, 3, 4, 5] 2 = Inr [[1, 2], [3, 4], [5]]
   \<and> \<lceil>real (length [1, 2, 3, 4, 5 :: int]) / real_of_int 2\<rceil> = 3
   \<and> encode example_encoding (str ''abcab'') (Only []) AllSpecial = Inr [256, 99, 256]
   \<and> split_text_into_chunks example_encoding_for_model (str ''abcab'') 2 ''gpt-4o''
       = Inr [str ''abc'', str ''ab'']"
proof -
  have h: "(0 :: int) < 2" by simp
  have w5: "token_windows [1, 2, 3, 4, 5] 2 = Inr [[1, 2], [3, 4], [5]]"
    by (simp add: token_windows_def py_range_def range_from.simps py_slice_def)
  have w3: "token_windows [256, 99, 256] 2 = Inr [[256, 99], [256]]"
    by (simp add: token_windows_def py_range_def range_from.simps py_slice_def)
  have enc: "encode example_encoding (str ''abcab'') (Only []) AllSpecial = Inr [256, 99, 256]"
    by (simp add: encode_def example_eval)
  have dec: "map_result (\<lambda>w. decode example_encoding w Replace) [[256, 99], [256]]
             = Inr [str ''abc'', str ''ab'']"
    by (simp add: decode_def decode_bytes_def example_eval utf8_decode.simps utf8_next_def)
  show ?thesis
    using h w5 w3 enc dec
      split_text_into_chunks_windows [OF h, of "[1, 2, 3, 4, 5]"]
      split_text_into_chunks_windows [OF h, of "[256, 99, 256]"]
    by (auto simp: example_encoding_for_model_def)
qed

section \<open>Offsets\<close>

text \<open>
  C7. When every token decodes to a non-empty byte sequence, \<open>decode_with_offsets\<close>
  gives token \<open>i\<close> the offset \<open>max (0, running_length - 1)\<close> if its first byte \<open>b\<close>
  satisfies \<open>0x80 \<le> b < 0xC0\<close> and \<open>running_length\<close> otherwise, where
  \<open>running_length\<close> counts the non-continuation bytes of the tokens before it; the
  offsets are returned with the strictly decoded text.
\<close>

theorem decode_with_offsets_rule:
  assumes "decode_tokens_bytes e tokens = Inr token_bytes"
    and "\<forall>tb \<in> set token_bytes. tb \<noteq> []"
  shows "\<exists>offsets. offsets_loop token_bytes 0 [] = Inr offsets
     \<and> length offsets = length tokens
     \<and> (\<forall>i < length tokens.
           offsets ! i =
             (let b = hd (token_bytes ! i);
                  running_length =
                    int (length (filter (\<lambda>c. \<not> (0x80 \<le> c \<and> c < 0xC0))
                                   (concat (take i token_bytes))))
              in if 0x80 \<le> b \<and> b < 0xC0 then max 0 (running_length - 1)
                 else running_length))
     \<and> decode_with_offsets e tokens =
         (case utf8_decode Strict (concat token_bytes) of
            Inl err \<Rightarrow> Inl err
          | Inr t \<Rightarrow> Inr (t, offsets))"
proof -
  from offsets_loop_succeeds [OF assms(2)] obtain offsets where
    run: "offsets_loop token_bytes 0 [] = Inr offsets" by blast
  have len_tb: "length token_bytes = length tokens"
    using assms(1) by (simp add: decode_tokens_bytes_def map_result_Inr_length)
  from offsets_loop_nth [OF run] have
    len: "length offsets = length token_bytes"
    and nth: "\<And>i. i < length token_bytes \<Longrightarrow>
           offsets ! i =
             max 0 (int (length (filter (\<lambda>c. \<not> is_continuation c) (concat (take i token_bytes))))
                    - (if is_continuation (hd (token_bytes ! i)) then 1 else 0))"
    by auto
  have rule: "offsets ! i =
             (let b = hd (token_bytes ! i);
                  running_length =
                    int (length (filter (\<lambda>c. \<not> (0x80 \<le> c \<and> c < 0xC0))
                                   (concat (take i token_bytes))))
              in if 0x80 \<le> b \<and> b < 0xC0 then max 0 (running_length - 1)
                 else running_length)"
    if "i < length tokens" for i
    using nth [of i] that len_tb by (simp add: Let_def is_continuation_def)
  have dwo: "decode_with_offsets e tokens =
         (case utf8_decode Strict (concat token_bytes) of
            Inl err \<Rightarrow> Inl err
          | Inr t \<Rightarrow> Inr (t, offsets))"
    using assms(1) run by (simp add: decode_with_offsets_def)
  show ?thesis
    using run len len_tb rule dwo by auto
qed

theorem decode_with_offsets_rule_witness:
  "decode_tokens_bytes example_encoding [0xF0, 0x9F, 0x98, 0x80, 97, 256]
     = Inr [[0xF0], [0x9F], [0x98], [0x80], [97], [97, 98]]
   \<and> [] \<notin> set [[0xF0], [0x9F], [0x98], [0x80], [97], [97, 98 :: nat]]
   \<and> decode_with_offsets example_encoding [0xF0, 0x9F, 0x98, 0x80, 97, 256]
     = Inr ([0x1F600, 97, 97, 98], [0, 0, 0, 0, 1, 2])"
proof -
  have h1: "decode_tokens_bytes example_encoding [0xF0, 0x9F, 0x98, 0x80, 97, 256]
     = Inr [[0xF0], [0x9F], [0x98], [0x80], [97], [97, 98]]"
    by (simp add: decode_tokens_bytes_def decode_single_token_bytes_def example_eval)
  have h2: "\<forall>tb \<in> set [[0xF0], [0x9F], [0x98], [0x80], [97], [97, 98 :: nat]]. tb \<noteq> []"
    by simp
  have lp: "offsets_loop [[0xF0], [0x9F], [0x98], [0x80], [97], [97, 98]] 0 []
            = Inr [0, 0, 0, 0, 1, 2]"
    by (simp add: is_continuation_def)
  have dec: "utf8_decode Strict (concat [[0xF0], [0x9F], [0x98], [0x80], [97], [97, 98]])
             = Inr [0x1F600, 97, 97, 98]"
    by (simp add: utf8_decode.simps utf8_next_def is_continuation_def)
  show ?thesis
    using h1 h2 lp dec decode_with_offsets_rule [OF h1 h2] by auto
qed

text \<open>
  C8. Whenever \<open>decode_with_offsets\<close> succeeds, the offsets are non-decreasing and
  each lies between \<open>0\<close> and the length of the decoded string.
\<close>

theorem decode_with_offsets_monotone:
  assumes "decode_with_offsets e tokens = Inr (t, offsets)"
  shows "sorted offsets
     \<and> (\<forall>x \<in> set offsets. 0 \<le> x \<and> x \<le> int (length t))
     \<and> length offsets = length tokens"
proof -
  from assms obtain token_bytes where
    tb: "decode_tokens_bytes e tokens = Inr token_bytes"
    and run: "offsets_loop token_bytes 0 [] = Inr offsets"
    and dec: "utf8_decode Strict (concat token_bytes) = Inr t"
    by (auto simp: decode_with_offsets_def split: sum.splits)
  from offsets_loop_sorted [OF run] obtain new where
    "offsets = [] @ new" and srt: "sorted new"
    and bnd: "\<forall>x \<in> set new. max 0 (0 - 1) \<le> x
        \<and> x \<le> 0 + int (length (filter (\<lambda>c. \<not> is_continuation c) (concat token_bytes)))"
    by auto
  then have eq: "offsets = new" by simp
  have "length t = length (filter (\<lambda>c. \<not> is_continuation c) (concat token_bytes))"
    using utf8_decode_strict_length [OF dec] .
  with bnd eq have b: "\<forall>x \<in> set offsets. 0 \<le> x \<and> x \<le> int (length t)" by simp
  have "length offsets = length tokens"
    using offsets_loop_nth [OF run] tb
    by (simp add: decode_tokens_bytes_def map_result_Inr_length)
  with srt eq b show ?thesis by simp
qed

theorem decode_with_offsets_monotone_witness:
  "decode_with_offsets example_encoding [0xC3, 0xA9, 256, 0xE2, 0x82, 0xAC]
     = Inr ([0xE9, 97, 98, 0x20AC], [0, 0, 1, 3, 3, 3])
   \<and> sorted [0, 0, 1, 3, 3, 3 :: int]
   \<and> list_all (\<lambda>x. 0 \<le> x \<and> x \<le> int (length [0xE9, 97, 98, 0x20AC :: nat]))
         [0, 0, 1, 3, 3, 3 :: int]"
proof -
  have h: "decode_with_offsets example_encoding [0xC3, 0xA9, 256, 0xE2, 0x82, 0xAC]
     = Inr ([0xE9, 97, 98, 0x20AC], [0, 0, 1, 3, 3, 3])"
    by (simp add: decode_with_offsets_def decode_tokens_bytes_def decode_single_token_bytes_def
        example_eval utf8_decode.simps utf8_next_def is_continuation_def)
  show ?thesis
    using h decode_with_offsets_monotone [OF h] by simp
qed

section \<open>The surrogate fallback\<close>

text \<open>
  C5. Let the native engine reject a text exactly when it holds a surrogate code point
  (for \<open>encode\<close>: with the allowed set that the call passes on). Then for every text
  with a surrogate, \<open>encode_ordinary\<close> and \<open>encode\<close> call the engine once more on
  the text re-encoded through UTF-16 with \<open>surrogatepass\<close> and \<open>replace\<close>, which has
  no surrogate left, and return what that call returns: they never fail with
  \<open>UnicodeEncodeError\<close>. (\<open>encode\<close> still raises \<open>DisallowedSpecialToken\<close> when
  its scan, which runs first, finds a disallowed literal.)
\<close>

theorem surrogate_fallback_recovers:
  assumes "\<forall>t'. (core_encode_ordinary (core_bpe e) t' = Inl UnicodeEncodeError)
                = has_surrogate t'"
    and "\<forall>t'. (core_encode (core_bpe e) t'
                  (py_set (resolve_allowed (special_tokens_set e) a)) = Inl UnicodeEncodeError)
                = has_surrogate t'"
    and "has_surrogate t"
  shows "\<not> has_surrogate (surrogate_fallback t)
     \<and> encode_ordinary e t = core_encode_ordinary (core_bpe e) (surrogate_fallback t)
     \<and> encode_ordinary e t \<noteq> Inl UnicodeEncodeError
     \<and> encode e t a d =
         (case disallowed_scan (special_tokens_set e) a d t of
            Some m \<Rightarrow> Inl (DisallowedSpecialToken m)
          | None \<Rightarrow>
              core_encode (core_bpe e) (surrogate_fallback t)
                (py_set (resolve_allowed (special_tokens_set e) a)))
     \<and> encode e t a d \<noteq> Inl UnicodeEncodeError"
proof -
  note ns = surrogate_fallback_no_surrogate [of t]
  have ord: "encode_ordinary e t = core_encode_ordinary (core_bpe e) (surrogate_fallback t)"
    using assms(1,3) by (simp add: encode_ordinary_def)
  have ord_ok: "encode_ordinary e t \<noteq> Inl UnicodeEncodeError"
    using ord assms(1) ns by simp
  have enc: "encode e t a d =
         (case disallowed_scan (special_tokens_set e) a d t of
            Some m \<Rightarrow> Inl (DisallowedSpecialToken m)
          | None \<Rightarrow>
              core_encode (core_bpe e) (surrogate_fallback t)
                (py_set (resolve_allowed (special_tokens_set e) a)))"
    using assms(2,3) by (simp add: encode_scan split: option.splits)
  have enc_ok: "encode e t a d \<noteq> Inl UnicodeEncodeError"
    using enc assms(2) ns by (simp split: option.splits)
  show ?thesis using ns ord ord_ok enc enc_ok by simp
qed

theorem surrogate_fallback_recovers_witness:
  "has_surrogate [0x61, 0xD800]
   \<and> surrogate_fallback [0x61, 0xD800] = [0x61, 0xFFFD]
   \<and> encode_ordinary example_encoding [0x61, 0xD800] = Inr [0x61, 0xEF, 0xBF, 0xBD]
   \<and> encode example_encoding [0x61, 0xD800] (Only []) AllSpecial = Inr [0x61, 0xEF, 0xBF, 0xBD]"
proof -
  have h1: "\<forall>t'. (core_encode_ordinary (core_bpe example_encoding) t' = Inl UnicodeEncodeError)
                = has_surrogate t'"
    by (simp add: example_encoding_def merge_engine_rejects_surrogates(1))
  have h2: "\<forall>t'. (core_encode (core_bpe example_encoding) t'
                  (py_set (resolve_allowed (special_tokens_set example_encoding) (Only [])))
                  = Inl UnicodeEncodeError)
                = has_surrogate t'"
    by (simp add: example_encoding_def merge_engine_rejects_surrogates(2))
  have h3: "has_surrogate [0x61, 0xD800]"
    by (simp add: has_surrogate_def is_surrogate_def)
  have ev1: "core_encode_ordinary (core_bpe example_encoding) [0x61, 0xFFFD]
             = Inr [0x61, 0xEF, 0xBF, 0xBD]"
    by (simp add: example_eval)
  have ev2: "core_encode (core_bpe example_encoding) [0x61, 0xFFFD] [] = Inr [0x61, 0xEF, 0xBF, 0xBD]"
    by (simp add: example_eval)
  have sc: "disallowed_scan (special_tokens_set example_encoding) (Only []) AllSpecial
              [0x61, 0xD800] = None"
    by (simp add: disallowed_scan_def resolve_allowed_def resolve_disallowed_def example_eval)
  show ?thesis
    using surrogate_fallback_recovers [OF h1 h2 h3, of AllSpecial] h3 ev1 ev2 sc
    by (simp add: example_surrogate_fallback py_set_def resolve_allowed_def)
qed

section \<open>Round trip\<close>

text \<open>
  C1 (amended). Let the native engine be the merge engine of the spec over a well-formed
  vocabulary, and let the pieces of the text under the split pattern concatenate to the
  text. Then for every text of code points below \<open>0x110000\<close> without surrogates (with
  or without special-token literals), \<open>encode_ordinary\<close> succeeds and \<open>decode\<close> of
  its result is the text.
\<close>

theorem encode_ordinary_roundtrip:
  assumes "core_bpe e
           = merge_engine rx unstable (mergeable_ranks e) (special_tokens e) (pat_str e)"
    and "well_formed_ranks (mergeable_ranks e)"
    and "concat (rx (pat_str e) t) = t"
    and "valid_str t" and "\<not> has_surrogate t"
  shows "\<exists>toks. encode_ordinary e t = Inr toks \<and> decode e toks errors = Inr t"
proof -
  from bpe_encode_ordinary_roundtrip
         [of "mergeable_ranks e" rx "pat_str e" t "special_tokens e", OF assms(2,3,4)]
  obtain toks where
    enc: "bpe_encode_ordinary rx (mergeable_ranks e) (pat_str e) t = Inr toks"
    and dec: "bpe_decode_bytes (mergeable_ranks e) (special_tokens e) toks = Inr (utf8_bytes t)"
    by blast
  have "encode_ordinary e t = Inr toks"
    using assms(1,5) enc by (simp add: encode_ordinary_def merge_engine_def)
  moreover have "decode e toks errors = Inr t"
    using assms(1,4,5) dec
    by (simp add: decode_def decode_bytes_def merge_engine_def utf8_decode_encode)
  ultimately show ?thesis by blast
qed

theorem encode_ordinary_roundtrip_witness:
  "well_formed_ranks (mergeable_ranks example_encoding)
   \<and> valid_str [0x61, 0x62, 0xE9, 0x20AC, 0x1F600]
   \<and> \<not> has_surrogate [0x61, 0x62, 0xE9, 0x20AC, 0x1F600]
   \<and> encode_ordinary example_encoding [0x61, 0x62, 0xE9, 0x20AC, 0x1F600]
       = Inr [256, 0xC3, 0xA9, 0xE2, 0x82, 0xAC, 0xF0, 0x9F, 0x98, 0x80]
   \<and> decode example_encoding [256, 0xC3, 0xA9, 0xE2, 0x82, 0xAC, 0xF0, 0x9F, 0x98, 0x80] Replace
       = Inr [0x61, 0x62, 0xE9, 0x20AC, 0x1F600]"
proof -
  have h1: "core_bpe example_encoding
           = merge_engine example_rx example_unstable (mergeable_ranks example_encoding)
               (special_tokens example_encoding) (pat_str example_encoding)"
    by (simp add: example_encoding_def)
  have h2: "well_formed_ranks (mergeable_ranks example_encoding)"
    by (simp add: example_encoding_def example_ranks_well_formed)
  have h3: "concat (example_rx (pat_str example_encoding) [0x61, 0x62, 0xE9, 0x20AC, 0x1F600])
            = [0x61, 0x62, 0xE9, 0x20AC, 0x1F600]"
    by (simp add: example_rx_def)
  have h4: "valid_str [0x61, 0x62, 0xE9, 0x20AC, 0x1F600]"
    by (simp add: valid_str_def)
  have h5: "\<not> has_surrogate [0x61, 0x62, 0xE9, 0x20AC, 0x1F600]"
    by (simp add: has_surrogate_def is_surrogate_def)
  have ev: "encode_ordinary example_encoding [0x61, 0x62, 0xE9, 0x20AC, 0x1F600]
       = Inr [256, 0xC3, 0xA9, 0xE2, 0x82, 0xAC, 0xF0, 0x9F, 0x98, 0x80]"
    by (simp add: encode_ordinary_def example_eval)
  show ?thesis
    using h2 h4 h5 ev encode_ordinary_roundtrip [OF h1 h2 h3 h4 h5, of Replace] by simp
qed

text \<open>
  C1 as stated fails on a text with a lone surrogate and no special-token literal: the
  fallback of \<open>encode_ordinary\<close> replaces the surrogate by U+FFFD, which is what
  \<open>decode\<close> returns.
\<close>

theorem encode_ordinary_roundtrip_counterexample:
  "\<not> sublist (str ''<a>'') [0x61, 0xD800] \<and> \<not> sublist (str ''<b>'') [0x61, 0xD800]
   \<and> valid_str [0x61, 0xD800]
   \<and> encode_ordinary example_encoding [0x61, 0xD800] = Inr [0x61, 0xEF, 0xBF, 0xBD]
   \<and> decode example_encoding [0x61, 0xEF, 0xBF, 0xBD] Replace = Inr [0x61, 0xFFFD]"
proof -
  have enc: "encode_ordinary example_encoding [0x61, 0xD800] = Inr [0x61, 0xEF, 0xBF, 0xBD]"
    by (simp add: encode_ordinary_def example_surrogate_fallback example_eval)
  have dec: "decode example_encoding [0x61, 0xEF, 0xBF, 0xBD] Replace = Inr [0x61, 0xFFFD]"
    by (simp add: decode_def decode_bytes_def example_eval utf8_decode.simps utf8_next_def
        is_continuation_def)
  show ?thesis
    using enc dec by (simp add: str_def valid_str_def sublist_Cons_right)
qed

section \<open>Disallowed special tokens\<close>

text \<open>
  C2 (amended). For a text that contains a special-token literal \<open>s\<close>, \<open>encode\<close>
  under the default policy fails with \<open>DisallowedSpecialToken\<close> naming a special-token
  literal that occurs in the text, whatever the native engine is (the scan comes before
  any tokenization); the literal named is \<open>s\<close> when no other special-token literal
  occurs in the text. With \<open>allowed_special = {s}\<close>, for the merge engine of the spec
  over a well-formed vocabulary and a pattern whose pieces cover every text, a non-empty
  \<open>s\<close> and a text without surrogates in which no other special-token literal occurs,
  the call succeeds: its result is \<open>encode_ordinary\<close> of the text before the first
  occurrence of \<open>s\<close>, then the one token that is the reserved id of \<open>s\<close>, then
  \<open>encode\<close> of the text after it.
\<close>

theorem disallowed_special_enforced:
  assumes "s \<in> set (special_tokens_set e)" and "sublist s t"
  shows "(\<exists>m. m \<in> set (special_tokens_set e) \<and> sublist m t
            \<and> (\<forall>core. encode (e\<lparr>core_bpe := core\<rparr>) t (Only []) AllSpecial
                         = Inl (DisallowedSpecialToken m)))
      \<and> ((\<forall>s' \<in> set (special_tokens_set e). sublist s' t \<longrightarrow> s' = s) \<longrightarrow>
            encode e t (Only []) AllSpecial = Inl (DisallowedSpecialToken s))
      \<and> (core_bpe e = merge_engine rx unstable (mergeable_ranks e) (special_tokens e) (pat_str e)
          \<and> well_formed_ranks (mergeable_ranks e) \<and> (\<forall>t'. concat (rx (pat_str e) t') = t')
          \<and> valid_str t \<and> \<not> has_surrogate t
          \<and> map_of (special_tokens e) s = Some sid \<and> s \<noteq> []
          \<and> t = pre @ s @ post \<and> \<not> sublist s (pre @ butlast s)
          \<and> (\<forall>s' \<in> set (special_tokens_set e). sublist s' t \<longrightarrow> s' = s)
         \<longrightarrow> (\<exists>toks_pre toks_post.
               encode e t (Only [s]) AllSpecial = Inr (toks_pre @ [sid] @ toks_post)
               \<and> encode_ordinary e pre = Inr toks_pre
               \<and> encode e post (Only [s]) AllSpecial = Inr toks_post))"
proof -
  from disallowed_scan_default [OF assms] obtain m where
    scan: "disallowed_scan (special_tokens_set e) (Only []) AllSpecial t = Some m"
    and m: "m \<in> set (special_tokens_set e)" "sublist m t"
    by blast
  have any_core: "encode (e\<lparr>core_bpe := core\<rparr>) t (Only []) AllSpecial
                  = Inl (DisallowedSpecialToken m)" for core
    using scan by (simp add: encode_scan special_tokens_set_def)
  have partA: "\<exists>m. m \<in> set (special_tokens_set e) \<and> sublist m t
            \<and> (\<forall>core. encode (e\<lparr>core_bpe := core\<rparr>) t (Only []) AllSpecial
                         = Inl (DisallowedSpecialToken m))"
    using m any_core by blast
  have only: "encode e t (Only []) AllSpecial = Inl (DisallowedSpecialToken s)"
    if "\<forall>s' \<in> set (special_tokens_set e). sublist s' t \<longrightarrow> s' = s"
    using that m scan by (simp add: encode_scan)
  have partB: "\<exists>toks_pre toks_post.
               encode e t (Only [s]) AllSpecial = Inr (toks_pre @ [sid] @ toks_post)
               \<and> encode_ordinary e pre = Inr toks_pre
               \<and> encode e post (Only [s]) AllSpecial = Inr toks_post"
    if core: "core_bpe e
              = merge_engine rx unstable (mergeable_ranks e) (special_tokens e) (pat_str e)"
      and wf: "well_formed_ranks (mergeable_ranks e)"
      and cover: "\<forall>t'. concat (rx (pat_str e) t') = t'"
      and valid: "valid_str t" and nosurr: "\<not> has_surrogate t"
      and sid: "map_of (special_tokens e) s = Some sid" and ne: "s \<noteq> []"
      and t: "t = pre @ s @ post" and left: "\<not> sublist s (pre @ butlast s)"
      and others: "\<forall>s' \<in> set (special_tokens_set e). sublist s' t \<longrightarrow> s' = s"
  proof -
    from bpe_encode_special_at [of "mergeable_ranks e" rx "pat_str e" pre s post
        "special_tokens e" sid, OF wf cover valid [unfolded t] sid ne left]
    obtain toks_pre toks_post where
      whole: "bpe_encode rx (mergeable_ranks e) (special_tokens e) (pat_str e) [s] t
              = Inr (toks_pre @ [sid] @ toks_post)"
      and pre: "bpe_encode_ordinary rx (mergeable_ranks e) (pat_str e) pre = Inr toks_pre"
      and post: "bpe_encode rx (mergeable_ranks e) (special_tokens e) (pat_str e) [s] post
                 = Inr toks_post"
      unfolding t by blast
    have sub_pre: "sublist pre t"
      unfolding t sublist_def by (rule exI [of _ "[]"], rule exI [of _ "s @ post"]) simp
    have sub_post: "sublist post t"
      unfolding t sublist_def by (rule exI [of _ "pre @ s"], rule exI [of _ "[]"]) simp
    have ns_pre: "\<not> has_surrogate pre" and ns_post: "\<not> has_surrogate post"
      using nosurr has_surrogate_sublist sub_pre sub_post by blast+
    have scan_t: "disallowed_scan (special_tokens_set e) (Only [s]) AllSpecial t = None"
      using others by (rule disallowed_scan_only_allowed)
    have "\<forall>s' \<in> set (special_tokens_set e). sublist s' post \<longrightarrow> s' = s"
      using others sub_post sublist_order.order_trans by blast
    then have scan_post:
      "disallowed_scan (special_tokens_set e) (Only [s]) AllSpecial post = None"
      by (rule disallowed_scan_only_allowed)
    have allowed: "py_set (resolve_allowed (special_tokens_set e) (Only [s])) = [s]"
      by (simp add: py_set_def resolve_allowed_def)
    have e1: "encode e t (Only [s]) AllSpecial = Inr (toks_pre @ [sid] @ toks_post)"
      using scan_t whole nosurr
      by (simp add: encode_scan allowed core merge_engine_def)
    have e2: "encode_ordinary e pre = Inr toks_pre"
      using pre ns_pre by (simp add: encode_ordinary_def core merge_engine_def)
    have e3: "encode e post (Only [s]) AllSpecial = Inr toks_post"
      using scan_post post ns_post
      by (simp add: encode_scan allowed core merge_engine_def)
    from e1 e2 e3 show ?thesis by blast
  qed
  show ?thesis
    using partA only partB by blast
qed

theorem disallowed_special_enforced_witness:
  "str ''<a>'' \<in> set (special_tokens_set example_encoding)
   \<and> sublist (str ''<a>'') (str ''xab<a>ab'')
   \<and> \<not> sublist (str ''<b>'') (str ''xab<a>ab'')
   \<and> encode example_encoding (str ''xab<a>ab'') (Only []) AllSpecial
       = Inl (DisallowedSpecialToken (str ''<a>''))
   \<and> encode example_encoding (str ''xab<a>ab'') (Only [str ''<a>'']) AllSpecial
       = Inr ([120, 256] @ [257] @ [256])
   \<and> encode_ordinary example_encoding (str ''xab'') = Inr [120, 256]
   \<and> encode example_encoding (str ''ab'') (Only [str ''<a>'']) AllSpecial = Inr [256]"
proof -
  have h1: "str ''<a>'' \<in> set (special_tokens_set example_encoding)"
    by (simp add: special_tokens_set_def example_encoding_def example_specials_def)
  have t: "str ''xab<a>ab'' = str ''xab'' @ str ''<a>'' @ str ''ab''"
    by (simp add: str_def)
  have h2: "sublist (str ''<a>'') (str ''xab<a>ab'')"
    unfolding t by (rule sublist_appendI)
  have nb: "\<not> sublist (str ''<b>'') (str ''xab<a>ab'')"
    by (simp add: str_def sublist_Cons_right)
  have others: "\<forall>s' \<in> set (special_tokens_set example_encoding).
                  sublist s' (str ''xab<a>ab'') \<longrightarrow> s' = str ''<a>''"
    using nb by (simp add: special_tokens_set_def example_encoding_def example_specials_def)
  have left: "\<not> sublist (str ''<a>'') (str ''xab'' @ butlast (str ''<a>''))"
    by (simp add: str_def sublist_Cons_right)
  have hyps: "core_bpe example_encoding
        = merge_engine example_rx example_unstable (mergeable_ranks example_encoding)
            (special_tokens example_encoding) (pat_str example_encoding)
      \<and> well_formed_ranks (mergeable_ranks example_encoding)
      \<and> (\<forall>t'. concat (example_rx (pat_str example_encoding) t') = t')
      \<and> valid_str (str ''xab<a>ab'') \<and> \<not> has_surrogate (str ''xab<a>ab'')
      \<and> map_of (special_tokens example_encoding) (str ''<a>'') = Some 257
      \<and> str ''<a>'' \<noteq> []
      \<and> str ''xab<a>ab'' = str ''xab'' @ str ''<a>'' @ str ''ab''
      \<and> \<not> sublist (str ''<a>'') (str ''xab'' @ butlast (str ''<a>''))
      \<and> (\<forall>s' \<in> set (special_tokens_set example_encoding).
            sublist s' (str ''xab<a>ab'') \<longrightarrow> s' = str ''<a>'')"
    using others left
    by (simp add: example_encoding_def example_ranks_well_formed example_rx_def
        example_specials_def str_def valid_str_def has_surrogate_def is_surrogate_def)
  have ev1: "encode_ordinary example_encoding (str ''xab'') = Inr [120, 256]"
    by (simp add: encode_ordinary_def example_eval)
  have ev2: "encode example_encoding (str ''ab'') (Only [str ''<a>'']) AllSpecial = Inr [256]"
    by (simp add: encode_def example_eval)
  from disallowed_special_enforced [OF h1 h2, of example_rx example_unstable 257
      "str ''xab''" "str ''ab''"] others hyps
  have a: "encode example_encoding (str ''xab<a>ab'') (Only []) AllSpecial
           = Inl (DisallowedSpecialToken (str ''<a>''))"
    and b: "\<exists>toks_pre toks_post.
             encode example_encoding (str ''xab<a>ab'') (Only [str ''<a>'']) AllSpecial
               = Inr (toks_pre @ [257] @ toks_post)
             \<and> encode_ordinary example_encoding (str ''xab'') = Inr toks_pre
             \<and> encode example_encoding (str ''ab'') (Only [str ''<a>'']) AllSpecial
                 = Inr toks_post"
    by blast+
  from b ev1 ev2 have "encode example_encoding (str ''xab<a>ab'') (Only [str ''<a>'']) AllSpecial
       = Inr ([120, 256] @ [257] @ [256])"
    by auto
  with h1 h2 nb a ev1 ev2 show ?thesis by simp
qed

text \<open>
  C2 as stated fails on a text with two special-token literals: the default call names
  the one found first, not \<open>s\<close>, and the call that allows only \<open>s\<close> fails on the
  other one.
\<close>

theorem disallowed_special_enforced_counterexample:
  "str ''<a>'' \<in> set (special_tokens_set example_encoding)
   \<and> sublist (str ''<a>'') (str ''<b><a>'')
   \<and> str ''<b>'' \<noteq> str ''<a>''
   \<and> encode example_encoding (str ''<b><a>'') (Only []) AllSpecial
       = Inl (DisallowedSpecialToken (str ''<b>''))
   \<and> encode example_encoding (str ''<b><a>'') (Only [str ''<a>'']) AllSpecial
       = Inl (DisallowedSpecialToken (str ''<b>''))"
  by (simp add: encode_def example_eval sublist_Cons_right)

end
